theory Spec2Isabelle
  imports Main "HOL-Library.Word" "HOL-Library.Multiset"
begin

unbundle bit_operations_syntax

section \<open>Lotto 6/49 ticket generators\<close>

text \<open>
  A shallow embedding of the two C programs \<^verbatim>\<open>lotto649_portable.c\<close> (xorshift128+
  engine, Fisher-Yates draw of 6 main numbers and a bonus, fingerprint, seen table,
  run driver) and \<^verbatim>\<open>lotto649.c\<close> (the simple variant on \<^verbatim>\<open>rand()\<close>).
  A \<^verbatim>\<open>uint64_t\<close> is a \<open>64 word\<close>; a ticket entry (a C \<^verbatim>\<open>int\<close> that only ever
  holds a value of the pool 1..49) is an \<open>int\<close>; \<^verbatim>\<open>size_t\<close> indices and the capacity of
  the table are \<open>nat\<close> (the table would need \<open>2 ^ 67\<close> bytes before a \<^verbatim>\<open>size_t\<close>
  could wrap). A loop that may run forever is a \<^theory_text>\<open>partial_function\<close> in the
  option monad: \<open>None\<close> is "does not return". A read or write outside the allocated
  table is the value \<open>Inl OutOfBounds\<close>.
\<close>

type_synonym u64 = "64 word"

subsection \<open>Xorshift128+ and its seeding\<close>

text \<open>\<^verbatim>\<open>static uint64_t state[2]\<close>: the pair \<open>(state[0], state[1])\<close>.\<close>

type_synonym state = "u64 \<times> u64"

definition xorshift128plus :: "state \<Rightarrow> u64 \<times> state" where
  "xorshift128plus st =
     (let x = fst st;
          y = snd st;
          x = x XOR push_bit 23 x;
          s1 = x XOR y XOR drop_bit 17 x XOR drop_bit 26 y
      in (s1 + y, (y, s1)))"

text \<open>
  \<^verbatim>\<open>seed_rng\<close>: the entropy word (the CSPRNG's 8 bytes, or the time XOR a stack
  address XOR the performance counter) comes from the environment and is the
  argument here; the two assignments to \<^verbatim>\<open>state\<close> are the code's.
\<close>

definition seed_rng :: "u64 \<Rightarrow> state" where
  "seed_rng entropy = (entropy, entropy XOR 0x9e3779b97f4a7c15)"

subsection \<open>Sorting helper\<close>

definition cmp :: "int \<Rightarrow> int \<Rightarrow> int" where
  "cmp a b = a - b"

text \<open>
  \<^verbatim>\<open>qsort\<close> is the C library's: it orders the array so that the comparator is never
  positive on two neighbours. It is modelled as an insertion sort driven by the
  comparator it is given.
\<close>

fun qsort_insert :: "(int \<Rightarrow> int \<Rightarrow> int) \<Rightarrow> int \<Rightarrow> int list \<Rightarrow> int list" where
  "qsort_insert c x [] = [x]"
| "qsort_insert c x (y # ys) = (if c x y \<le> 0 then x # y # ys else y # qsort_insert c x ys)"

definition qsort :: "(int \<Rightarrow> int \<Rightarrow> int) \<Rightarrow> int list \<Rightarrow> int list" where
  "qsort c xs = foldr (qsort_insert c) xs []"

subsection \<open>One draw\<close>

text \<open>\<^verbatim>\<open>t = pool[i]; pool[i] = pool[j]; pool[j] = t\<close>\<close>

definition swap :: "int list \<Rightarrow> nat \<Rightarrow> nat \<Rightarrow> int list" where
  "swap pool i j = (let t = pool ! i in (pool[i := pool ! j])[j := t])"

text \<open>
  The Fisher-Yates loop \<^verbatim>\<open>for (i = 48; i > 0; i--)\<close>, by recursion on \<open>i\<close>. The engine
  is a parameter \<open>gen\<close> (a state transformer that returns a 64-bit value), so that the
  same loop can be run on xorshift128+ and on an arbitrary sequence of engine outputs.
\<close>

fun shuffle :: "('s \<Rightarrow> u64 \<times> 's) \<Rightarrow> nat \<Rightarrow> int list \<Rightarrow> 's \<Rightarrow> int list \<times> 's" where
  "shuffle gen 0 pool s = (pool, s)"
| "shuffle gen (Suc i') pool s =
     (let i = Suc i';
          (r, s') = gen s;
          j = unat (r mod of_nat (i + 1))
      in shuffle gen i' (swap pool i j) s')"

definition draw_one_with :: "('s \<Rightarrow> u64 \<times> 's) \<Rightarrow> 's \<Rightarrow> int list \<times> 's" where
  "draw_one_with gen s =
     (let pool = map (\<lambda>i. int i + 1) [0..<49];
          (pool, s') = shuffle gen 48 pool s;
          ticket = take 7 pool
      in (qsort cmp (take 6 ticket) @ drop 6 ticket, s'))"

definition draw_one :: "state \<Rightarrow> int list \<times> state" where
  "draw_one = draw_one_with xorshift128plus"

subsection \<open>Fingerprint\<close>

text \<open>
  The body of the loop of \<^verbatim>\<open>hash_ticket\<close>,
  \<^verbatim>\<open>h = (h ^ (uint64_t)ticket[i]) * 0x9e3779b97f4a7c15ULL\<close>, and the loop over
  \<open>i = 0, ..., 6\<close> from the start value.
\<close>

definition mix :: "int list \<Rightarrow> nat \<Rightarrow> u64 \<Rightarrow> u64" where
  "mix ticket i h = (h XOR of_int (ticket ! i)) * 0x9e3779b97f4a7c15"

definition hash_ticket :: "int list \<Rightarrow> u64" where
  "hash_ticket ticket = fold (mix ticket) [0..<7] 0x517cc1b727220a95"

subsection \<open>The seen table\<close>

text \<open>
  \<^verbatim>\<open>static uint64_t *seen = NULL; static size_t capacity = 0;\<close> The pointer is
  \<open>None\<close> while it is \<^verbatim>\<open>NULL\<close> and the allocated block otherwise. \<^verbatim>\<open>calloc\<close> and
  \<^verbatim>\<open>realloc\<close> are taken to succeed (the code does not test their result either).
\<close>

datatype fault = OutOfBounds

record guard =
  seen :: "u64 list option"
  capacity :: nat

definition no_guard :: guard where
  "no_guard = \<lparr>seen = None, capacity = 0\<rparr>"

text \<open>
  The allocator calls, on the block as a list. \<^verbatim>\<open>realloc\<close> keeps the old contents and
  leaves the new slots unspecified: they are filled with the all-ones word here, so that
  nothing can rest on their being zero before \<^verbatim>\<open>memset\<close> has cleared them.
\<close>

definition calloc :: "nat \<Rightarrow> u64 list" where
  "calloc n = replicate n 0"

definition realloc :: "u64 list \<Rightarrow> nat \<Rightarrow> u64 list" where
  "realloc blk n = take n (blk @ replicate n (- 1))"

definition memset0 :: "u64 list \<Rightarrow> nat \<Rightarrow> nat \<Rightarrow> u64 list" where
  "memset0 blk off n = take off blk @ replicate n 0 @ drop (off + n) blk"

text \<open>
  \<^verbatim>\<open>remember(h, index)\<close>: allocate 1024 zeroed slots on first use; when \<open>index\<close> has
  reached the capacity, double it, reallocate and zero the upper half; then store \<open>h\<close>
  at \<open>index\<close>.
\<close>

definition remember :: "guard \<Rightarrow> u64 \<Rightarrow> nat \<Rightarrow> fault + guard" where
  "remember g h index =
     (let g = (if seen g = None
               then g\<lparr>seen := Some (calloc 1024), capacity := 1024\<rparr>
               else g);
          g = (if index \<ge> capacity g
               then (let cap = capacity g * 2
                     in g\<lparr>seen := map_option
                                (\<lambda>blk. memset0 (realloc blk cap) (cap div 2) (cap div 2))
                                (seen g),
                           capacity := cap\<rparr>)
               else g)
      in case seen g of
           None \<Rightarrow> Inl OutOfBounds
         | Some tbl \<Rightarrow>
             if index < length tbl then Inr (g\<lparr>seen := Some (tbl[index := h])\<rparr>)
             else Inl OutOfBounds)"

text \<open>
  The probe loop of \<^verbatim>\<open>already_seen\<close>:
  \<^verbatim>\<open>while (seen[i]) { if (seen[i] == h) return 1; i = (i + 1) & mask; } return 0;\<close>
  It has no bound of its own, so it is a partial function.
\<close>

partial_function (option) probe :: "u64 list \<Rightarrow> u64 \<Rightarrow> u64 \<Rightarrow> u64 \<Rightarrow> (fault + bool) option" where
  "probe tbl msk h i =
     (if length tbl \<le> unat i then Some (Inl OutOfBounds)
      else if tbl ! unat i = 0 then Some (Inr False)
      else if tbl ! unat i = h then Some (Inr True)
      else probe tbl msk h ((i + 1) AND msk))"

definition already_seen :: "guard \<Rightarrow> u64 \<Rightarrow> (fault + bool) option" where
  "already_seen g h =
     (case seen g of
        None \<Rightarrow> Some (Inr False)
      | Some tbl \<Rightarrow>
          (let msk = of_nat (capacity g) - 1;
               i = h AND msk
           in probe tbl msk h i))"

subsection \<open>The run driver of the portable variant\<close>

text \<open>
  \<^verbatim>\<open>do { draw_one(ticket); h = hash_ticket(ticket); } while (already_seen(h));\<close>
  The result is the accepted ticket, its fingerprint and the engine state after it.
\<close>

partial_function (option) draw_unique ::
    "guard \<Rightarrow> state \<Rightarrow> (fault + (int list \<times> u64 \<times> state)) option" where
  "draw_unique g st =
     (case already_seen g (hash_ticket (fst (draw_one st))) of
        None \<Rightarrow> None
      | Some (Inl f) \<Rightarrow> Some (Inl f)
      | Some (Inr dup) \<Rightarrow>
          if dup then draw_unique g (snd (draw_one st))
          else Some (Inr (fst (draw_one st), hash_ticket (fst (draw_one st)), snd (draw_one st))))"

text \<open>
  The state of \<^verbatim>\<open>main\<close> between two iterations of its \<^verbatim>\<open>for\<close> loop: the engine, the
  table, and the tickets printed so far, oldest first.
\<close>

record run_state =
  rng :: state
  grd :: guard
  printed :: "int list list"

definition start :: "u64 \<Rightarrow> run_state" where
  "start entropy = \<lparr>rng = seed_rng entropy, grd = no_guard, printed = []\<rparr>"

text \<open>The body of the \<^verbatim>\<open>for\<close> loop for ticket number \<open>n\<close> (counted from 1).\<close>

definition emit :: "nat \<Rightarrow> run_state \<Rightarrow> (fault + run_state) option" where
  "emit n rs =
     (case draw_unique (grd rs) (rng rs) of
        None \<Rightarrow> None
      | Some (Inl f) \<Rightarrow> Some (Inl f)
      | Some (Inr (ticket, h, st)) \<Rightarrow>
          (case remember (grd rs) h (n - 1) of
             Inl f \<Rightarrow> Some (Inl f)
           | Inr g \<Rightarrow> Some (Inr \<lparr>rng = st, grd = g, printed = printed rs @ [ticket]\<rparr>)))"

text \<open>
  \<^verbatim>\<open>for (long n = 1; n <= want; n++)\<close>: \<open>generate k rs\<close> is the state after the
  iterations \<open>n = 1, ..., k\<close>, so \<open>generate k\<close> for \<open>k \<le> want\<close> are the states a run
  with \<open>want\<close> tickets passes through.
\<close>

fun generate :: "nat \<Rightarrow> run_state \<Rightarrow> (fault + run_state) option" where
  "generate 0 rs = Some (Inr rs)"
| "generate (Suc k) rs =
     (case generate k rs of
        None \<Rightarrow> None
      | Some (Inl f) \<Rightarrow> Some (Inl f)
      | Some (Inr rs') \<Rightarrow> emit (Suc k) rs')"

subsection \<open>Command line\<close>

text \<open>
  \<^verbatim>\<open>strtol(s, &end, 10)\<close> and \<^verbatim>\<open>atoi\<close> are the C library's. They are modelled after the
  C standard for base 10 and a 64-bit \<^verbatim>\<open>long\<close>: white space is skipped, one sign is
  read, then the longest run of decimal digits; with no digit the value is 0 and the end
  pointer is the start of the string; a value out of range is clamped. The result is the
  value and the text at the end pointer. \<^verbatim>\<open>atoi(s)\<close> is \<^verbatim>\<open>(int) strtol(s, NULL, 10)\<close>,
  the conversion to a 32-bit \<^verbatim>\<open>int\<close> wrapping around.
\<close>

definition isspace :: "char \<Rightarrow> bool" where
  "isspace c = (c \<in> set [CHR '' '', CHR 0x09, CHR 0x0A, CHR 0x0B, CHR 0x0C, CHR 0x0D])"

definition isdigit :: "char \<Rightarrow> bool" where
  "isdigit c = (48 \<le> (of_char c :: nat) \<and> (of_char c :: nat) \<le> 57)"

definition digits_value :: "string \<Rightarrow> int" where
  "digits_value ds = foldl (\<lambda>a c. 10 * a + (int (of_char c) - 48)) 0 ds"

definition strtol :: "string \<Rightarrow> int \<times> string" where
  "strtol s =
     (let s1 = dropWhile isspace s;
          neg = (s1 \<noteq> [] \<and> hd s1 = CHR ''-'');
          s2 = (if s1 \<noteq> [] \<and> (hd s1 = CHR ''-'' \<or> hd s1 = CHR ''+'') then tl s1 else s1);
          ds = takeWhile isdigit s2;
          v = (if neg then - digits_value ds else digits_value ds)
      in if ds = [] then (0, s)
         else (max (- (2 ^ 63)) (min (2 ^ 63 - 1) v), dropWhile isdigit s2))"

definition atoi :: "string \<Rightarrow> int" where
  "atoi s = sint (word_of_int (fst (strtol s)) :: 32 word)"

text \<open>
  The ticket count of the portable variant:
  \<^verbatim>\<open>long want = 5; if (argc >= 2) { n = strtol(argv[1], &end, 10);
  if (*end == '\0' && n >= 1) want = n; }\<close>
  \<open>argv\<close> is the whole argument vector, the program name first.
\<close>

definition parse_want :: "string list \<Rightarrow> int" where
  "parse_want argv =
     (let want = 5
      in if length argv \<ge> 2
         then (let (n, rest) = strtol (argv ! 1)
               in if rest = [] \<and> n \<ge> 1 then n else want)
         else want)"

text \<open>
  \<^verbatim>\<open>main\<close> of \<^verbatim>\<open>lotto649_portable.c\<close>, from the entropy word and the argument vector to
  the exit code and the tickets printed (each as its seven numbers, in print order).
\<close>

definition main_portable :: "u64 \<Rightarrow> string list \<Rightarrow> (fault + int \<times> int list list) option" where
  "main_portable entropy argv =
     (case generate (nat (parse_want argv)) (start entropy) of
        None \<Rightarrow> None
      | Some (Inl f) \<Rightarrow> Some (Inl f)
      | Some (Inr rs) \<Rightarrow> Some (Inr (0, printed rs)))"

subsection \<open>The simple variant\<close>

definition compare :: "int \<Rightarrow> int \<Rightarrow> int" where
  "compare a b = a - b"

text \<open>
  \<^verbatim>\<open>rand()\<close> is the C library's: a parameter \<open>rnd\<close>, a state transformer that returns a
  value in \<open>0..RAND_MAX\<close> (a \<open>nat\<close>), with the generator state \<open>g\<close> that
  \<^verbatim>\<open>srand((unsigned int)time(NULL))\<close> has set.
\<close>

fun shuffle_rand :: "('g \<Rightarrow> nat \<times> 'g) \<Rightarrow> nat \<Rightarrow> int list \<Rightarrow> 'g \<Rightarrow> int list \<times> 'g" where
  "shuffle_rand rnd 0 numbers g = (numbers, g)"
| "shuffle_rand rnd (Suc i') numbers g =
     (let i = Suc i';
          (r, g') = rnd g;
          j = r mod (i + 1)
      in shuffle_rand rnd i' (swap numbers i j) g')"

text \<open>\<^verbatim>\<open>generate_ticket\<close>; the line it prints is the ticket it returns here.\<close>

definition generate_ticket :: "('g \<Rightarrow> nat \<times> 'g) \<Rightarrow> 'g \<Rightarrow> int list \<times> 'g" where
  "generate_ticket rnd g =
     (let numbers = map (\<lambda>i. int i + 1) [0..<49];
          (numbers, g') = shuffle_rand rnd 48 numbers g;
          ticket = map (\<lambda>i. numbers ! i) [0..<6]
      in (qsort compare ticket, g'))"

text \<open>\<^verbatim>\<open>for (int i = 0; i < count; i++) generate_ticket();\<close>\<close>

fun tickets :: "('g \<Rightarrow> nat \<times> 'g) \<Rightarrow> nat \<Rightarrow> 'g \<Rightarrow> int list list" where
  "tickets rnd 0 g = []"
| "tickets rnd (Suc n) g = (let (t, g') = generate_ticket rnd g in t # tickets rnd n g')"

text \<open>
  \<^verbatim>\<open>main\<close> of \<^verbatim>\<open>lotto649.c\<close>: the exit code, the lines written to \<^verbatim>\<open>stderr\<close> and the
  tickets printed.
\<close>

definition main_simple ::
    "('g \<Rightarrow> nat \<times> 'g) \<Rightarrow> 'g \<Rightarrow> string list \<Rightarrow> int \<times> string list \<times> int list list" where
  "main_simple rnd g argv =
     (let count = (if length argv > 1 then atoi (argv ! 1) else 5)
      in if length argv > 1 \<and> count \<le> 0
         then (1, [''Invalid ticket count. Must be a positive integer.''], [])
         else (0, [], tickets rnd (nat count) g))"

subsection \<open>Notions used in the statements\<close>

text \<open>The allocated block of the table, empty while the pointer is \<^verbatim>\<open>NULL\<close>.\<close>

definition table :: "guard \<Rightarrow> u64 list" where
  "table g = (case seen g of None \<Rightarrow> [] | Some tbl \<Rightarrow> tbl)"

text \<open>
  The state of the run after \<open>k\<close> accepted tickets: the fingerprints of the printed
  tickets fill the slots \<open>0, ..., k - 1\<close> in print order, every other slot is zero, and
  the capacity is 1024 doubled as often as \<open>k\<close> has required.
\<close>

definition table_inv :: "nat \<Rightarrow> run_state \<Rightarrow> bool" where
  "table_inv k rs =
     (length (printed rs) = k \<and>
      (if k = 0 then grd rs = no_guard
       else seen (grd rs)
              = Some (map hash_ticket (printed rs) @ replicate (capacity (grd rs) - k) 0)
            \<and> k \<le> capacity (grd rs)
            \<and> (\<exists>m. capacity (grd rs) = 1024 * 2 ^ m)
            \<and> (capacity (grd rs) = 1024 \<or> capacity (grd rs) < 2 * k)))"

text \<open>
  A perfect engine is any source of 64-bit values: it is modelled by the sequence of
  values it returns, \<open>replay\<close> handing out the next one. \<open>outcome rs\<close> is the ticket
  that one draw makes of the output sequence \<open>rs\<close>; a draw consumes 48 outputs. The
  possible outcomes are the tickets of six ascending main numbers of 1..49 and a bonus
  of 1..49 that is none of them.
\<close>

definition replay :: "u64 list \<Rightarrow> u64 \<times> u64 list" where
  "replay rs = (case rs of [] \<Rightarrow> (0, []) | r # rs' \<Rightarrow> (r, rs'))"

definition outcome :: "u64 list \<Rightarrow> int list" where
  "outcome rs = fst (draw_one_with replay rs)"

definition outputs48 :: "u64 list set" where
  "outputs48 = {rs. length rs = 48}"

definition outcomes :: "int list set" where
  "outcomes = {t. length t = 7 \<and> distinct t \<and> set t \<subseteq> {1..49} \<and> sorted_wrt (<) (take 6 t)}"

text \<open>
  For counting the outcomes: a set of six main numbers with a bonus outside it, and the
  ticket that lists them.
\<close>

definition ticket_of :: "int set \<times> int \<Rightarrow> int list" where
  "ticket_of p = sorted_list_of_set (fst p) @ [snd p]"

definition splits :: "(int set \<times> int) set" where
  "splits = (SIGMA M : {M. M \<subseteq> {1..49} \<and> card M = 6}. {1..49} - M)"

section \<open>Properties\<close>

subsection \<open>The sorting helper\<close>

lemma mset_qsort_insert: "mset (qsort_insert c x xs) = add_mset x (mset xs)"
  by (induction xs) simp_all

lemma mset_qsort: "mset (qsort c xs) = mset xs"
  unfolding qsort_def by (induction xs) (simp_all add: mset_qsort_insert)

lemma set_qsort_insert: "set (qsort_insert c x xs) = insert x (set xs)"
  using mset_qsort_insert [of c x xs, THEN arg_cong, of set_mset] by simp

lemma sorted_qsort_insert:
  "sorted xs \<Longrightarrow> sorted (qsort_insert (\<lambda>a b. a - b) x xs)"
  by (induction xs) (auto simp: set_qsort_insert)

lemma sorted_qsort_diff: "sorted (qsort (\<lambda>a b. a - b) xs)"
  unfolding qsort_def by (induction xs) (simp_all add: sorted_qsort_insert)

lemma qsort_ascending:
  assumes "distinct xs"
  shows "sorted_wrt (<) (qsort (\<lambda>a b. a - b) xs)"
proof -
  have "distinct (qsort (\<lambda>a b. a - b) xs)"
    using assms mset_eq_imp_distinct_iff [OF mset_qsort [of "\<lambda>a b. a - b" xs]] by simp
  with sorted_qsort_diff [of xs] show ?thesis
    by (simp add: strict_sorted_iff)
qed

subsection \<open>The shuffle is a permutation of the pool\<close>

lemma length_swap [simp]: "length (swap pool i j) = length pool"
  by (simp add: swap_def)

lemma mset_swap_pool:
  "i < length pool \<Longrightarrow> j < length pool \<Longrightarrow> mset (swap pool i j) = mset pool"
  unfolding swap_def Let_def by (rule mset_swap)

lemma unat_mod_less:
  fixes r :: u64
  assumes "0 < n" "n < 2 ^ 64"
  shows "unat (r mod of_nat n) < n"
proof -
  have "unat (of_nat n :: u64) = n"
    using assms by (simp add: unat_of_nat)
  then show ?thesis
    using assms by (simp add: unat_mod)
qed

lemma shuffle_perm:
  "i < length pool \<Longrightarrow> length pool < 2 ^ 64 \<Longrightarrow>
   mset (fst (shuffle gen i pool s)) = mset pool"
proof (induction i arbitrary: pool s)
  case 0
  then show ?case by simp
next
  case (Suc i)
  obtain r s' where g: "gen s = (r, s')" by (cases "gen s")
  let ?j = "unat (r mod of_nat (Suc i + 1))"
  have "?j < Suc i + 1"
    using Suc.prems by (intro unat_mod_less) simp_all
  then have j: "?j < length pool" using Suc.prems by linarith
  have "mset (fst (shuffle gen i (swap pool (Suc i) ?j) s')) = mset (swap pool (Suc i) ?j)"
    using Suc.prems by (intro Suc.IH) simp_all
  also have "\<dots> = mset pool"
    using Suc.prems j by (intro mset_swap_pool) simp_all
  finally show ?case by (simp add: g)
qed

lemma shuffle_rand_perm:
  "i < length pool \<Longrightarrow> mset (fst (shuffle_rand rnd i pool g)) = mset pool"
proof (induction i arbitrary: pool g)
  case 0
  then show ?case by simp
next
  case (Suc i)
  obtain r g' where g: "rnd g = (r, g')" by (cases "rnd g")
  let ?j = "r mod (Suc i + 1)"
  have "?j < Suc i + 1" by simp
  then have j: "?j < length pool" using Suc.prems by linarith
  have "mset (fst (shuffle_rand rnd i (swap pool (Suc i) ?j) g')) = mset (swap pool (Suc i) ?j)"
    using Suc.prems by (intro Suc.IH) simp_all
  also have "\<dots> = mset pool"
    using Suc.prems j by (intro mset_swap_pool) simp_all
  finally show ?case by (simp add: g)
qed


lemma pool_facts:
  "length (map (\<lambda>i. int i + 1) [0..<49]) = 49"
  "distinct (map (\<lambda>i. int i + 1) [0..<49])"
  "set (map (\<lambda>i. int i + 1) [0..<49]) = {1..49}"
proof -
  show "length (map (\<lambda>i. int i + 1) [0..<49]) = 49" by simp
  show "distinct (map (\<lambda>i. int i + 1) [0..<49])"
    by (simp add: distinct_map inj_on_def)
  show "set (map (\<lambda>i. int i + 1) [0..<49]) = {1..49}"
  proof (rule set_eqI)
    fix x :: int
    show "x \<in> set (map (\<lambda>i. int i + 1) [0..<49]) \<longleftrightarrow> x \<in> {1..49}"
    proof
      assume "x \<in> set (map (\<lambda>i. int i + 1) [0..<49])"
      then obtain i where "i < 49" "x = int i + 1" by auto
      then show "x \<in> {1..49}" by simp
    next
      assume "x \<in> {1..49}"
      then have "x = int (nat (x - 1)) + 1" "nat (x - 1) < 49" by auto
      then have "x \<in> (\<lambda>i. int i + 1) ` {0..<49}"
        by (intro image_eqI [where x = "nat (x - 1)"]) simp_all
      then show "x \<in> set (map (\<lambda>i. int i + 1) [0..<49])" by simp
    qed
  qed
qed

lemma perm_pool:
  assumes "mset p = mset (map (\<lambda>i. int i + 1) [0..<49])"
  shows "length p = 49" "distinct p" "set p = {1..49}"
proof -
  show "length p = 49" using mset_eq_length [OF assms] by simp
  show "distinct p" using mset_eq_imp_distinct_iff [OF assms] pool_facts(2) by simp
  show "set p = {1..49}" using mset_eq_setD [OF assms] pool_facts(3) by simp
qed

lemma cmp_is_diff: "cmp = (\<lambda>a b. a - b)" "compare = (\<lambda>a b. a - b)"
  by (simp_all add: fun_eq_iff cmp_def compare_def)

lemma length_qsort [simp]: "length (qsort c xs) = length xs"
  using mset_eq_length [OF mset_qsort [of c xs]] .

lemma set_qsort [simp]: "set (qsort c xs) = set xs"
  using mset_eq_setD [OF mset_qsort [of c xs]] .

lemma distinct_qsort [simp]: "distinct (qsort c xs) = distinct xs"
  using mset_eq_imp_distinct_iff [OF mset_qsort [of c xs]] .

lemma draw_one_with_ticket:
  fixes gen :: "'s \<Rightarrow> u64 \<times> 's" and s :: 's
  defines "t \<equiv> fst (draw_one_with gen s)"
  shows "length t = 7" "distinct t" "set t \<subseteq> {1..49}" "sorted_wrt (<) (take 6 t)"
proof -
  obtain p s' where sh: "shuffle gen 48 (map (\<lambda>i. int i + 1) [0..<49]) s = (p, s')"
    by (cases "shuffle gen 48 (map (\<lambda>i. int i + 1) [0..<49]) s")
  have "mset (fst (shuffle gen 48 (map (\<lambda>i. int i + 1) [0..<49]) s))
          = mset (map (\<lambda>i. int i + 1) [0..<49])"
    by (rule shuffle_perm) simp_all
  then have "mset p = mset (map (\<lambda>i. int i + 1) [0..<49])"
    by (simp add: sh)
  note p = perm_pool [OF this]
  have t: "t = qsort cmp (take 6 (take 7 p)) @ drop 6 (take 7 p)"
    by (simp add: t_def draw_one_with_def sh Let_def)
  show "length t = 7" using p(1) by (simp add: t)
  have "distinct (take 6 (take 7 p) @ drop 6 (take 7 p))"
    using p(2) by (simp only: append_take_drop_id distinct_take)
  then show "distinct t" by (simp add: t)
  have "set t = set (take 6 (take 7 p) @ drop 6 (take 7 p))"
    by (simp add: t)
  also have "\<dots> = set (take 7 p)" by (simp only: append_take_drop_id)
  also have "\<dots> \<subseteq> set p" by (rule set_take_subset)
  finally show "set t \<subseteq> {1..49}" using p(3) by simp
  have "take 6 t = qsort cmp (take 6 (take 7 p))"
    using p(1) by (simp add: t)
  moreover have "distinct (take 6 (take 7 p))" using p(2) by (simp only: distinct_take)
  ultimately show "sorted_wrt (<) (take 6 t)"
    using qsort_ascending by (simp add: cmp_is_diff)
qed


lemma generate_ticket_ticket:
  fixes rnd :: "'g \<Rightarrow> nat \<times> 'g" and g :: 'g
  defines "t \<equiv> fst (generate_ticket rnd g)"
  shows "length t = 6" "distinct t" "set t \<subseteq> {1..49}" "sorted_wrt (<) t"
proof -
  obtain p g' where sh: "shuffle_rand rnd 48 (map (\<lambda>i. int i + 1) [0..<49]) g = (p, g')"
    by (cases "shuffle_rand rnd 48 (map (\<lambda>i. int i + 1) [0..<49]) g")
  have "mset (fst (shuffle_rand rnd 48 (map (\<lambda>i. int i + 1) [0..<49]) g))
          = mset (map (\<lambda>i. int i + 1) [0..<49])"
    by (rule shuffle_rand_perm) simp
  then have "mset p = mset (map (\<lambda>i. int i + 1) [0..<49])"
    by (simp add: sh)
  note p = perm_pool [OF this]
  have first: "map (\<lambda>i. p ! i) [0..<6] = take 6 p"
    using p(1) by (intro nth_equalityI) simp_all
  have t: "t = qsort compare (take 6 p)"
    by (simp only: t_def generate_ticket_def sh Let_def prod.case fst_conv first)
  show "length t = 6" using p(1) by (simp add: t)
  show "distinct t" using p(2) by (simp add: t)
  have "set t \<subseteq> set p" by (simp add: t set_take_subset)
  then show "set t \<subseteq> {1..49}" using p(3) by simp
  have "distinct (take 6 p)" using p(2) by simp
  then show "sorted_wrt (<) t"
    using qsort_ascending by (simp add: t cmp_is_diff)
qed

text \<open>
  C2. For every engine state, the ticket that \<^verbatim>\<open>draw_one\<close> returns has seven entries,
  pairwise distinct and all in 1..49, the first six (the main numbers) in strictly
  ascending order; the bonus at position 6 is therefore in 1..49 and none of the six
  main numbers. For every \<^verbatim>\<open>rand()\<close> (any generator, any state \<^verbatim>\<open>srand\<close> has set), the
  ticket that \<^verbatim>\<open>generate_ticket\<close> of the simple variant prints has six pairwise distinct
  entries in 1..49 in strictly ascending order.
\<close>

theorem ticket_wellformed:
  "length (fst (draw_one st)) = 7
   \<and> distinct (fst (draw_one st))
   \<and> set (fst (draw_one st)) \<subseteq> {1..49}
   \<and> sorted_wrt (<) (take 6 (fst (draw_one st)))
   \<and> fst (draw_one st) ! 6 \<notin> set (take 6 (fst (draw_one st)))
   \<and> length (fst (generate_ticket rnd g)) = 6
   \<and> distinct (fst (generate_ticket rnd g))
   \<and> set (fst (generate_ticket rnd g)) \<subseteq> {1..49}
   \<and> sorted_wrt (<) (fst (generate_ticket rnd g))"
proof -
  let ?t = "fst (draw_one st)"
  note d = draw_one_with_ticket [of xorshift128plus st, folded draw_one_def]
  have "?t = take 6 ?t @ [?t ! 6]"
    using d(1) by (simp add: take_Suc_conv_app_nth [of 6 ?t, simplified, symmetric])
  then have "distinct (take 6 ?t @ [?t ! 6])"
    using d(2) by simp
  then have "?t ! 6 \<notin> set (take 6 ?t)"
    by simp
  with d generate_ticket_ticket [of rnd g] show ?thesis
    by simp
qed

subsection \<open>Fingerprint\<close>

lemma golden_inverse: "(0x9e3779b97f4a7c15 :: u64) * 0xf1de83e19937733d = 1"
  by simp

lemma golden_mult_inj:
  fixes a b :: u64
  assumes "a * 0x9e3779b97f4a7c15 = b * 0x9e3779b97f4a7c15"
  shows "a = b"
proof -
  have "a * (0x9e3779b97f4a7c15 * 0xf1de83e19937733d) = b * (0x9e3779b97f4a7c15 * 0xf1de83e19937733d)"
    using assms by (simp only: mult.assoc [symmetric])
  then show ?thesis by (simp only: golden_inverse mult_1_right)
qed

lemma xor_left_inj:
  fixes h :: u64
  assumes "h XOR a = h' XOR a"
  shows "h = h'"
proof -
  have "(h XOR a) XOR a = (h' XOR a) XOR a" using assms by simp
  then show ?thesis by (simp only: xor.assoc bit.xor_self xor.right_neutral)
qed

lemma xor_right_inj:
  fixes h :: u64
  assumes "h XOR a = h XOR b"
  shows "a = b"
  using assms xor_left_inj [of a h b] by (simp add: xor.commute)

lemma of_int_pool_inj:
  assumes "1 \<le> x" "x \<le> 49" "1 \<le> y" "y \<le> 49" "(of_int x :: u64) = of_int y"
  shows "x = y"
proof -
  have "take_bit 64 x = take_bit 64 y"
    using assms(5) by (simp add: word_of_int_eq_iff)
  moreover have "take_bit 64 x = x" "take_bit 64 y = y"
    using assms by (simp_all add: take_bit_int_eq_self)
  ultimately show ?thesis by simp
qed

lemma mix_inj: "mix t i h = mix t i h' \<Longrightarrow> h = h'"
  unfolding mix_def by (blast dest: golden_mult_inj xor_left_inj)

lemma fold_mix_cong:
  "\<forall>i \<in> set js. a ! i = b ! i \<Longrightarrow> fold (mix a) js h = fold (mix b) js h"
  by (induction js arbitrary: h) (simp_all add: mix_def)

lemma fold_mix_inj:
  "\<forall>i \<in> set js. a ! i = b ! i \<Longrightarrow> h \<noteq> h' \<Longrightarrow> fold (mix a) js h \<noteq> fold (mix b) js h'"
proof (induction js arbitrary: h h')
  case Nil
  then show ?case by simp
next
  case (Cons j js)
  have "mix a j h \<noteq> mix a j h'" using Cons.prems(2) mix_inj by blast
  moreover have "mix b j h' = mix a j h'" using Cons.prems(1) by (simp add: mix_def)
  ultimately show ?case using Cons.IH [of "mix a j h" "mix b j h'"] Cons.prems(1) by simp
qed

text \<open>
  C8. \<^verbatim>\<open>hash_ticket\<close> is a function of the seven ticket values alone, and it is
  sensitive to every position: two tickets of seven values in 1..49 that differ in
  exactly one position \<open>k\<close> (the bonus position 6 included) have different
  fingerprints. Multiplication by the odd constant and XOR with a fixed value are both
  injective on 64-bit words.
\<close>

theorem hash_ticket_sensitive:
  assumes len: "length a = 7" "length b = 7"
    and rng: "set a \<subseteq> {1..49}" "set b \<subseteq> {1..49}"
    and k: "k < 7" "a ! k \<noteq> b ! k"
    and same: "\<forall>i<7. i \<noteq> k \<longrightarrow> a ! i = b ! i"
  shows "hash_ticket a \<noteq> hash_ticket b"
proof -
  have "[0..<7] = [0..<k] @ [k..<7]"
    using upt_add_eq_append [of 0 k "7 - k"] k(1) by simp
  moreover have "[k..<7] = k # [Suc k..<7]"
    using k(1) by (rule upt_conv_Cons)
  ultimately have split: "[0..<7] = [0..<k] @ k # [Suc k..<7]"
    by simp
  define h where "h = fold (mix a) [0..<k] 0x517cc1b727220a95"
  have pre: "fold (mix b) [0..<k] 0x517cc1b727220a95 = h"
    unfolding h_def using same k(1) by (intro fold_mix_cong [symmetric]) auto
  have "a ! k \<in> {1..49}" "b ! k \<in> {1..49}"
    using len rng k(1) by (auto simp: subset_iff)
  then have "(of_int (a ! k) :: u64) \<noteq> of_int (b ! k)"
    using k(2) of_int_pool_inj by auto
  then have "mix a k h \<noteq> mix b k h"
    unfolding mix_def by (blast dest: golden_mult_inj xor_right_inj)
  moreover have "\<forall>i \<in> set [Suc k..<7]. a ! i = b ! i"
    using same by auto
  ultimately have "fold (mix a) [Suc k..<7] (mix a k h) \<noteq> fold (mix b) [Suc k..<7] (mix b k h)"
    by (intro fold_mix_inj)
  moreover have "hash_ticket a = fold (mix a) [Suc k..<7] (mix a k h)"
    by (simp only: hash_ticket_def split fold_append fold_Cons comp_apply h_def)
  moreover have "hash_ticket b = fold (mix b) [Suc k..<7] (mix b k h)"
    by (simp only: hash_ticket_def split fold_append fold_Cons comp_apply pre)
  ultimately show ?thesis
    by simp
qed

theorem hash_ticket_sensitive_witness:
  "hash_ticket [1, 2, 3, 4, 5, 6, 7] \<noteq> hash_ticket [1, 2, 3, 4, 5, 6, 8]"
  by (rule hash_ticket_sensitive [where k = 6]) (auto simp: nth_Cons')


subsection \<open>The probe loop\<close>

lemma unat_and_pow2_mask:
  fixes i :: u64
  shows "unat (i AND (2 ^ m - 1)) = unat i mod 2 ^ m"
proof -
  have "i AND (2 ^ m - 1) = take_bit m i"
    by (simp only: take_bit_eq_mask mask_eq_exp_minus_1)
  moreover have "unat (take_bit m i) = take_bit m (unat i)"
    by (rule unsigned_take_bit_eq)
  moreover have "take_bit m (unat i) = unat i mod 2 ^ m"
    by (rule take_bit_eq_mod)
  ultimately show ?thesis
    by (simp only:)
qed

lemma unat_next_slot:
  fixes i :: u64
  assumes "m \<le> 64"
  shows "unat ((i + 1) AND (2 ^ m - 1)) = (unat i + 1) mod 2 ^ m"
proof -
  have a: "unat (i + 1) = (unat i + 1) mod 2 ^ LENGTH(64)"
    using unat_word_ariths(1) [of i 1] by simp
  have b: "(2 :: nat) ^ m dvd 2 ^ LENGTH(64)"
    using assms by (intro le_imp_power_dvd) simp
  show ?thesis
    by (simp only: unat_and_pow2_mask a mod_mod_cancel [OF b])
qed

lemma probe_reaches_zero:
  fixes i :: u64
  assumes m: "m \<le> 64" and len: "length tbl = 2 ^ m"
  shows "unat i < 2 ^ m \<Longrightarrow> tbl ! ((unat i + n) mod 2 ^ m) = 0 \<Longrightarrow>
         \<exists>r. probe tbl (2 ^ m - 1) h i = Some (Inr r)"
proof (induction n arbitrary: i)
  case 0
  then show ?case
    using len by (subst probe.simps) auto
next
  case (Suc n)
  let ?i' = "(i + 1) AND (2 ^ m - 1) :: u64"
  have i': "unat ?i' = (unat i + 1) mod 2 ^ m"
    by (rule unat_next_slot [OF m])
  then have "unat ?i' < 2 ^ m" by simp
  moreover have "(unat ?i' + n) mod 2 ^ m = (unat i + Suc n) mod 2 ^ m"
    by (simp only: i' mod_add_left_eq) simp
  then have "tbl ! ((unat ?i' + n) mod 2 ^ m) = 0"
    using Suc.prems(2) by (simp only:)
  ultimately obtain r where "probe tbl (2 ^ m - 1) h ?i' = Some (Inr r)"
    using Suc.IH by blast
  then show ?case
    using Suc.prems(1) len by (subst probe.simps) auto
qed

lemma already_seen_terminates:
  assumes "seen g = Some tbl" "length tbl = capacity g" "capacity g = 2 ^ m" "m \<le> 64"
    and "0 \<in> set tbl"
  shows "\<exists>r. already_seen g h = Some (Inr r)"
proof -
  let ?i = "h AND (2 ^ m - 1) :: u64"
  obtain z where z: "z < 2 ^ m" "tbl ! z = 0"
    using assms by (metis in_set_conv_nth)
  have i: "unat ?i < 2 ^ m"
    by (simp only: unat_and_pow2_mask) simp
  define n where "n = (if unat ?i \<le> z then z - unat ?i else z + 2 ^ m - unat ?i)"
  have "(unat ?i + n) mod 2 ^ m = z"
    using i z(1) by (auto simp: n_def)
  then have "tbl ! ((unat ?i + n) mod 2 ^ m) = 0"
    using z(2) by simp
  then have "\<exists>r. probe tbl (2 ^ m - 1) h ?i = Some (Inr r)"
    using assms i by (intro probe_reaches_zero) simp_all
  then show ?thesis
    using assms by (simp add: already_seen_def Let_def)
qed

lemma probe_zero_never_found:
  "probe tbl msk h i = Some r \<Longrightarrow> h = 0 \<longrightarrow> r \<noteq> Inr True"
  by (rule probe.raw_induct [where P = "\<lambda>tbl msk h i r. h = 0 \<longrightarrow> r \<noteq> Inr True"])
    (auto split: if_splits)


subsection \<open>Slots fill in print order\<close>

lemma store_after_prefix:
  assumes "length hs < n"
  shows "(hs @ replicate (n - length hs) z)[length hs := h]
           = (hs @ [h]) @ replicate (n - Suc (length hs)) z"
proof -
  have "n - length hs = Suc (n - Suc (length hs))"
    using assms by simp
  then have "replicate (n - length hs) z = z # replicate (n - Suc (length hs)) z"
    by (simp only: replicate_Suc)
  then show ?thesis
    by (simp add: list_update_append)
qed

lemma grow_block:
  assumes "length hs = cap"
  shows "memset0 (realloc hs (cap * 2)) (cap * 2 div 2) (cap * 2 div 2)
           = hs @ replicate (cap * 2 - length hs) 0"
  using assms by (simp add: memset0_def realloc_def mult_2_right)

lemma remember_next:
  assumes inv: "table_inv k rs"
  shows "\<exists>g. remember (grd rs) (hash_ticket t) k = Inr g
           \<and> table_inv (Suc k) \<lparr>rng = st, grd = g, printed = printed rs @ [t]\<rparr>"
proof (cases "k = 0")
  case True
  have "(replicate 1024 (0 :: u64))[0 := hash_ticket t] = [hash_ticket t] @ replicate 1023 0"
    using store_after_prefix [of "[]" 1024 "0 :: u64" "hash_ticket t"] by simp
  with True inv show ?thesis
    by (simp add: table_inv_def remember_def no_guard_def calloc_def Let_def exI [of _ 0])
next
  case False
  define cap where "cap = capacity (grd rs)"
  define hs where "hs = map hash_ticket (printed rs)"
  from False inv have len: "length hs = k"
    and lenp: "length (printed rs) = k"
    and tbl: "seen (grd rs) = Some (hs @ replicate (cap - k) 0)"
    and k: "k \<le> cap"
    and small: "cap = 1024 \<or> cap < 2 * k"
    by (simp_all add: table_inv_def cap_def hs_def)
  have hs': "map hash_ticket (printed rs @ [t]) = hs @ [hash_ticket t]"
    by (simp add: hs_def)
  from False inv obtain m where m: "cap = 1024 * 2 ^ m"
    by (auto simp: table_inv_def cap_def)
  show ?thesis
  proof (cases "k = cap")
    case True
    have blk: "memset0 (realloc hs (cap * 2)) (cap * 2 div 2) (cap * 2 div 2)
                 = hs @ replicate (cap * 2 - length hs) 0"
      using len True by (intro grow_block) simp
    have upd: "(hs @ replicate (cap * 2 - length hs) 0)[length hs := hash_ticket t]
                 = (hs @ [hash_ticket t]) @ replicate (cap * 2 - Suc (length hs)) 0"
      using len True False by (intro store_after_prefix) simp
    have "cap * 2 = 1024 * 2 ^ Suc m"
      using m by simp
    then have "\<exists>m'. cap * 2 = 1024 * 2 ^ m'" ..
    then show ?thesis
      using True len lenp tbl False blk upd
      by (simp add: table_inv_def remember_def Let_def cap_def [symmetric] hs_def [symmetric])
  next
    case ne: False
    with k have lt: "k < cap" by simp
    have upd: "(hs @ replicate (cap - length hs) 0)[length hs := hash_ticket t]
                 = (hs @ [hash_ticket t]) @ replicate (cap - Suc (length hs)) 0"
      using len lt by (intro store_after_prefix) simp
    have "\<exists>m'. cap = 1024 * 2 ^ m'" using m ..
    then show ?thesis
      using lt len lenp tbl upd small
      by (auto simp: table_inv_def remember_def Let_def cap_def [symmetric] hs_def [symmetric])
  qed
qed

lemma draw_unique_fingerprint:
  "draw_unique g st = Some r \<Longrightarrow> (\<forall>t h st'. r = Inr (t, h, st') \<longrightarrow> h = hash_ticket t)"
  by (rule draw_unique.raw_induct
        [where P = "\<lambda>g st r. \<forall>t h st'. r = Inr (t, h, st') \<longrightarrow> h = hash_ticket t"])
    (auto split: option.splits sum.splits if_splits)

lemma emit_inv:
  assumes "table_inv k rs" "emit (Suc k) rs = Some (Inr rs')"
  shows "table_inv (Suc k) rs'"
proof -
  from assms(2) obtain t h st where
    d: "draw_unique (grd rs) (rng rs) = Some (Inr (t, h, st))"
    by (auto simp: emit_def split: option.splits sum.splits)
  then have h: "h = hash_ticket t"
    using draw_unique_fingerprint by blast
  obtain g where g: "remember (grd rs) (hash_ticket t) k = Inr g"
    "table_inv (Suc k) \<lparr>rng = st, grd = g, printed = printed rs @ [t]\<rparr>"
    using remember_next [OF assms(1)] by blast
  with assms(2) d h show ?thesis
    by (simp add: emit_def)
qed

lemma generate_inv:
  "generate k (start entropy) = Some (Inr rs) \<Longrightarrow> table_inv k rs"
proof (induction k arbitrary: rs)
  case 0
  then show ?case by (auto simp: table_inv_def start_def)
next
  case (Suc k)
  then obtain rs0 where "generate k (start entropy) = Some (Inr rs0)" "emit (Suc k) rs0 = Some (Inr rs)"
    by (auto split: option.splits sum.splits)
  then show ?case
    using Suc.IH emit_inv by blast
qed


lemma table_inv_capacity:
  assumes "table_inv k rs" "0 < k" "k \<le> 1024"
  shows "capacity (grd rs) = 1024"
proof -
  from assms obtain m where m: "capacity (grd rs) = 1024 * 2 ^ m"
    and small: "capacity (grd rs) = 1024 \<or> capacity (grd rs) < 2 * k"
    by (auto simp: table_inv_def)
  show ?thesis
  proof (cases m)
    case 0
    with m show ?thesis by simp
  next
    case (Suc n)
    then have "2048 \<le> capacity (grd rs)"
      using m by simp
    with small assms(3) show ?thesis by linarith
  qed
qed

lemma table_inv_table:
  assumes "table_inv k rs"
  shows "table (grd rs) = map hash_ticket (printed rs) @ replicate (capacity (grd rs) - k) 0"
    and "length (printed rs) = k"
  using assms by (auto simp: table_inv_def table_def no_guard_def split: if_splits)

text \<open>
  C9. In every run of the portable variant, after \<open>k\<close> iterations of the loop of
  \<^verbatim>\<open>main\<close> (\<open>k\<close> tickets accepted and printed), the fingerprint of the \<open>i\<close>-th printed
  ticket (counted from 0) is in slot \<open>i\<close> of the seen table, for every \<open>i < k\<close>: the
  first \<open>k\<close> slots hold exactly the fingerprints of the printed tickets, in print order,
  and every other slot of the block is zero. The slot is the acceptance index, whatever
  the fingerprint's value.
\<close>

theorem slots_fill_in_order:
  assumes "generate k (start entropy) = Some (Inr rs)"
  shows "length (printed rs) = k
       \<and> take k (table (grd rs)) = map hash_ticket (printed rs)
       \<and> set (drop k (table (grd rs))) \<subseteq> {0}
       \<and> (\<forall>i<k. table (grd rs) ! i = hash_ticket (printed rs ! i))"
proof -
  note inv = generate_inv [OF assms]
  note t = table_inv_table [OF inv]
  have "\<forall>i<k. table (grd rs) ! i = hash_ticket (printed rs ! i)"
    using t by (simp add: nth_append)
  with t show ?thesis
    by auto
qed

lemma already_seen_free_slot:
  assumes inv: "table_inv k rs" and k: "k < 1024"
    and slot: "k \<le> unat h mod 1024"
  shows "already_seen (grd rs) h = Some (Inr False)"
proof (cases "k = 0")
  case True
  with inv show ?thesis
    by (simp add: table_inv_def already_seen_def no_guard_def)
next
  case False
  then have cap: "capacity (grd rs) = 1024"
    using table_inv_capacity [OF inv] k by simp
  define tbl where "tbl = map hash_ticket (printed rs) @ replicate (1024 - k) (0 :: u64)"
  have seen: "seen (grd rs) = Some tbl"
    using inv False cap by (simp add: table_inv_def tbl_def)
  have len: "length tbl = 1024"
    using inv k by (simp add: tbl_def table_inv_def)
  have i: "unat (h AND (2 ^ 10 - 1)) = unat h mod 1024"
    using unat_and_pow2_mask [of h 10] by simp
  have "tbl ! (unat h mod 1024) = 0"
    using inv slot k by (simp add: tbl_def nth_append table_inv_def)
  then have "probe tbl (2 ^ 10 - 1) h (h AND (2 ^ 10 - 1)) = Some (Inr False)"
    using len by (subst probe.simps) (simp only: i, simp)
  then show ?thesis
    by (simp add: already_seen_def seen cap Let_def)
qed

lemma draw_unique_accepts:
  assumes "draw_one st = (t, st')" "already_seen g (hash_ticket t) = Some (Inr False)"
  shows "draw_unique g st = Some (Inr (t, hash_ticket t, st'))"
  using assms by (subst draw_unique.simps) simp

lemma emit_accepts:
  assumes inv: "table_inv k rs" and k: "k < 1024"
    and d: "draw_one (rng rs) = (t, st')"
    and slot: "k \<le> unat (hash_ticket t) mod 1024"
  shows "\<exists>rs'. emit (Suc k) rs = Some (Inr rs') \<and> printed rs' = printed rs @ [t] \<and> rng rs' = st'"
proof -
  have "draw_unique (grd rs) (rng rs) = Some (Inr (t, hash_ticket t, st'))"
    using d already_seen_free_slot [OF inv k slot] by (rule draw_unique_accepts)
  moreover obtain g where "remember (grd rs) (hash_ticket t) k = Inr g"
    using remember_next [OF inv] by blast
  ultimately show ?thesis
    by (simp add: emit_def)
qed

lemma generate_accepts:
  assumes g: "generate k (start entropy) = Some (Inr rs)" and k: "k < 1024"
    and d: "draw_one (rng rs) = (t, st')"
    and slot: "k \<le> unat (hash_ticket t) mod 1024"
  shows "\<exists>rs'. generate (Suc k) (start entropy) = Some (Inr rs')
            \<and> printed rs' = printed rs @ [t] \<and> rng rs' = st'"
  using emit_accepts [OF generate_inv [OF g] k d slot] g by simp

text \<open>
  C10. A call of \<^verbatim>\<open>already_seen\<close> returns whenever the table is a block of
  \<open>capacity = 2 ^ m\<close> slots one of which is zero. In a run that is asked for at most
  1024 tickets, every state in which a lookup is made (fewer than \<open>want\<close> tickets
  accepted so far) has such a table, so every lookup of the run returns, and it returns
  without leaving the block.
\<close>

theorem lookup_terminates:
  "(seen g = Some tbl \<longrightarrow> length tbl = capacity g \<longrightarrow> capacity g = 2 ^ m \<longrightarrow> m \<le> 64 \<longrightarrow>
      0 \<in> set tbl \<longrightarrow> (\<exists>r. already_seen g h = Some (Inr r)))
   \<and> (want \<le> 1024 \<longrightarrow> k < want \<longrightarrow> generate k (start entropy) = Some (Inr rs) \<longrightarrow>
      (\<exists>r. already_seen (grd rs) h' = Some (Inr r)))"
proof (intro conjI impI)
  assume "seen g = Some tbl" "length tbl = capacity g" "capacity g = 2 ^ m" "m \<le> 64"
    "0 \<in> set tbl"
  then show "\<exists>r. already_seen g h = Some (Inr r)"
    by (rule already_seen_terminates)
next
  assume want: "want \<le> 1024" "k < want" and g: "generate k (start entropy) = Some (Inr rs)"
  note inv = generate_inv [OF g]
  show "\<exists>r. already_seen (grd rs) h' = Some (Inr r)"
  proof (cases "k = 0")
    case True
    with inv show ?thesis
      by (auto simp: table_inv_def already_seen_def no_guard_def)
  next
    case False
    then have cap: "capacity (grd rs) = 1024"
      using table_inv_capacity [OF inv] want by simp
    let ?tbl = "map hash_ticket (printed rs) @ replicate (1024 - k) (0 :: u64)"
    have a: "seen (grd rs) = Some ?tbl"
      using inv False cap by (simp add: table_inv_def)
    have b: "length ?tbl = capacity (grd rs)"
      using inv want cap by (simp add: table_inv_def)
    have c: "capacity (grd rs) = 2 ^ 10"
      using cap by simp
    have d: "0 \<in> set ?tbl"
      using want by simp
    show ?thesis
      by (rule already_seen_terminates [OF a b c _ d]) simp
  qed
qed

subsection \<open>The lookup on a full table\<close>

text \<open>
  Where no slot is zero and the fingerprint is not in the table, the probe loop goes
  round the block for ever. After 1024 accepted tickets with non-zero fingerprints the
  table is full (it grows only in the next \<^verbatim>\<open>remember\<close>), so the first draw of ticket
  1025 whose fingerprint is new never comes back from \<^verbatim>\<open>already_seen\<close>.
\<close>

lemma probe_full_table_diverges:
  assumes "m \<le> 64" "length tbl = 2 ^ m" "0 \<notin> set tbl" "h \<notin> set tbl"
  shows "unat i < 2 ^ m \<Longrightarrow> probe tbl (2 ^ m - 1) h i = None"
proof -
  have "probe tbl' msk h' i' = Some r \<Longrightarrow>
        tbl' = tbl \<and> msk = 2 ^ m - 1 \<and> h' = h \<and> unat i' < 2 ^ m \<longrightarrow> False" for tbl' msk h' i' r
  proof (rule probe.raw_induct
      [where P = "\<lambda>tbl' msk h' i' r. tbl' = tbl \<and> msk = 2 ^ m - 1 \<and> h' = h \<and> unat i' < 2 ^ m \<longrightarrow> False"],
      goal_cases)
    case (1 probe' tbl' msk h' i' r)
    show ?case
    proof
      assume a: "tbl' = tbl \<and> msk = 2 ^ m - 1 \<and> h' = h \<and> unat i' < 2 ^ m"
      then have "tbl ! unat i' \<in> set tbl"
        using assms(2) by simp
      then have "tbl ! unat i' \<noteq> 0" "tbl ! unat i' \<noteq> h"
        using assms(3,4) by auto
      with a 1 have "probe' tbl (2 ^ m - 1) h ((i' + 1) AND (2 ^ m - 1)) = Some r"
        using assms(2) by (simp split: if_splits)
      moreover have "unat ((i' + 1) AND (2 ^ m - 1)) < 2 ^ m"
        by (simp only: unat_next_slot [OF assms(1)]) simp
      ultimately show False
        using 1 by blast
    qed
  qed
  then show "unat i < 2 ^ m \<Longrightarrow> probe tbl (2 ^ m - 1) h i = None"
    by (cases "probe tbl (2 ^ m - 1) h i") auto
qed

lemma already_seen_full_table_diverges:
  assumes "seen g = Some tbl" "length tbl = capacity g" "capacity g = 2 ^ m" "m \<le> 64"
    and "0 \<notin> set tbl" "h \<notin> set tbl"
  shows "already_seen g h = None"
proof -
  have "unat (h AND (2 ^ m - 1)) < 2 ^ m"
    by (simp only: unat_and_pow2_mask) simp
  then have "probe tbl (2 ^ m - 1) h (h AND (2 ^ m - 1)) = None"
    using assms by (intro probe_full_table_diverges) simp_all
  then show ?thesis
    using assms(1,3) by (simp add: already_seen_def Let_def)
qed

subsection \<open>No ticket has the fingerprint zero\<close>

text \<open>
  XOR with a value below 64 changes a word by less than 64, so the fingerprint of a
  ticket \<open>t\<close> is \<open>(...((k + e\<^sub>0) * c + e\<^sub>1) * c ... + e\<^sub>6) * c\<close> with the start value \<open>k\<close>, the
  multiplier \<open>c\<close> and seven integers \<open>e\<^sub>i\<close> between -63 and 63. Multiplied by
  11795217305443723496 it is, modulo \<open>2 ^ 64\<close>, a sum \<open>b + a\<^sub>0 * e\<^sub>0 + ... + a\<^sub>6 * e\<^sub>6\<close>
  whose coefficients are so small that the sum lies strictly between 0 and \<open>2 ^ 64\<close>: it
  is not a multiple of \<open>2 ^ 64\<close>, and the fingerprint is not zero.
\<close>

lemma xor_small_nat:
  fixes a n :: nat
  assumes "n < 64"
  shows "(a XOR n) div 64 = a div 64"
proof -
  have "n div 2 ^ 6 = 0" using assms by simp
  then have "drop_bit 6 n = 0" by (simp only: drop_bit_eq_div)
  then have "drop_bit 6 (a XOR n) = drop_bit 6 a"
    by (simp only: drop_bit_xor bit.xor_self xor.right_neutral) 
  then show ?thesis by (simp add: drop_bit_eq_div)
qed

lemma xor_small:
  fixes h :: u64 and t :: int
  assumes "0 \<le> t" "t < 64"
  shows "\<exists>e. \<bar>e\<bar> \<le> 63 \<and> h XOR of_int t = h + of_int e"
proof -
  define b where "b = unat h XOR nat t"
  define e where "e = int b - int (unat h)"
  have t: "of_int t = (of_nat (nat t) :: u64)"
    using assms by simp
  have "unat (of_nat n :: u64) = n" if "n < 64" for n
    using that by (simp add: unat_of_nat)
  moreover have "nat t < 64" using assms by simp
  ultimately have "unat (of_nat (nat t) :: u64) = nat t"
    by blast
  then have u: "unat (h XOR of_int t) = b"
    by (simp only: t unsigned_xor_eq b_def)
  have r: "(of_nat (unat w) :: u64) = w" for w
    by simp
  have "of_nat b = h XOR of_int t"
    using r [of "h XOR of_int t"] by (simp only: u)
  then have x: "h XOR of_int t = of_nat b"
    by (rule sym)
  have "of_nat b = of_nat (unat h) + (of_int e :: u64)"
    by (simp add: e_def)
  then have "h XOR of_int t = h + of_int e"
    by (simp only: x r)
  moreover have "b div 64 = unat h div 64"
    unfolding b_def using assms by (intro xor_small_nat) simp
  then have "\<bar>e\<bar> \<le> 63"
    unfolding e_def by linarith
  ultimately show ?thesis by blast
qed

lemma mix_linear:
  assumes "0 \<le> t ! i" "t ! i < 64"
  shows "\<exists>e. - 63 \<le> e \<and> e \<le> 63 \<and> mix t i h = (h + of_int e) * 0x9e3779b97f4a7c15"
proof -
  obtain e where "\<bar>e\<bar> \<le> 63" "h XOR of_int (t ! i) = h + of_int e"
    using xor_small [OF assms] by blast
  then have "- 63 \<le> e \<and> e \<le> 63 \<and> mix t i h = (h + of_int e) * 0x9e3779b97f4a7c15"
    by (simp add: mix_def abs_le_iff)
  then show ?thesis ..
qed

lemma scale_step:
  fixes m c h e a :: u64
  assumes "m * c = a"
  shows "m * ((h + e) * c) = a * h + a * e"
proof -
  have "m * ((h + e) * c) = (m * c) * (h + e)"
    by (simp only: ac_simps)
  then show ?thesis
    by (simp only: assms distrib_left)
qed

lemma hash_ticket_nonzero:
  assumes "\<forall>i<7. 0 \<le> t ! i \<and> t ! i < 64"
  shows "hash_ticket t \<noteq> 0"
proof
  assume zero: "hash_ticket t = 0"
  define h0 :: u64 where "h0 = 0x517cc1b727220a95"
  obtain e0 where e0: "- 63 \<le> e0" "e0 \<le> 63"
    and m0: "mix t 0 h0 = (h0 + of_int e0) * 0x9e3779b97f4a7c15"
    using mix_linear [of t 0 h0] assms by auto
  define h1 where "h1 = (h0 + of_int e0) * 0x9e3779b97f4a7c15"
  obtain e1 where e1: "- 63 \<le> e1" "e1 \<le> 63"
    and m1: "mix t 1 h1 = (h1 + of_int e1) * 0x9e3779b97f4a7c15"
    using mix_linear [of t 1 h1] assms by auto
  define h2 where "h2 = (h1 + of_int e1) * 0x9e3779b97f4a7c15"
  obtain e2 where e2: "- 63 \<le> e2" "e2 \<le> 63"
    and m2: "mix t 2 h2 = (h2 + of_int e2) * 0x9e3779b97f4a7c15"
    using mix_linear [of t 2 h2] assms by auto
  define h3 where "h3 = (h2 + of_int e2) * 0x9e3779b97f4a7c15"
  obtain e3 where e3: "- 63 \<le> e3" "e3 \<le> 63"
    and m3: "mix t 3 h3 = (h3 + of_int e3) * 0x9e3779b97f4a7c15"
    using mix_linear [of t 3 h3] assms by auto
  define h4 where "h4 = (h3 + of_int e3) * 0x9e3779b97f4a7c15"
  obtain e4 where e4: "- 63 \<le> e4" "e4 \<le> 63"
    and m4: "mix t 4 h4 = (h4 + of_int e4) * 0x9e3779b97f4a7c15"
    using mix_linear [of t 4 h4] assms by auto
  define h5 where "h5 = (h4 + of_int e4) * 0x9e3779b97f4a7c15"
  obtain e5 where e5: "- 63 \<le> e5" "e5 \<le> 63"
    and m5: "mix t 5 h5 = (h5 + of_int e5) * 0x9e3779b97f4a7c15"
    using mix_linear [of t 5 h5] assms by auto
  define h6 where "h6 = (h5 + of_int e5) * 0x9e3779b97f4a7c15"
  obtain e6 where e6: "- 63 \<le> e6" "e6 \<le> 63"
    and m6: "mix t 6 h6 = (h6 + of_int e6) * 0x9e3779b97f4a7c15"
    using mix_linear [of t 6 h6] assms by auto
  define h7 where "h7 = (h6 + of_int e6) * 0x9e3779b97f4a7c15"
  have u: "[0..<7] = [0, 1, 2, 3, 4, 5, 6 :: nat]"
    by (simp add: upt_conv_Cons eval_nat_numeral)
  have "hash_ticket t = mix t 6 (mix t 5 (mix t 4 (mix t 3 (mix t 2 (mix t 1 (mix t 0 h0))))))"
    by (simp only: hash_ticket_def u fold.simps comp_apply id_apply h0_def)
  also have "\<dots> = h7"
    by (simp only: m0 h1_def [symmetric] m1 h2_def [symmetric] m2 h3_def [symmetric]
        m3 h4_def [symmetric] m4 h5_def [symmetric] m5 h6_def [symmetric] m6 h7_def [symmetric])
  finally have h7: "h7 = 0"
    using zero by simp
  have s7: "11795217305443723496 * h7 = (of_int (- 8486092556207352) :: u64) * h6 + (of_int (- 8486092556207352) :: u64) * of_int e6"
    unfolding h7_def by (rule scale_step) simp
  have s6: "(of_int (- 8486092556207352) :: u64) * h6 = (of_int (- 6072505367300184) :: u64) * h5 + (of_int (- 6072505367300184) :: u64) * of_int e5"
    unfolding h6_def by (rule scale_step) simp
  have s5: "(of_int (- 6072505367300184) :: u64) * h5 = (of_int (- 17960496990113592) :: u64) * h4 + (of_int (- 17960496990113592) :: u64) * of_int e4"
    unfolding h5_def by (rule scale_step) simp
  have s4: "(of_int (- 17960496990113592) :: u64) * h4 = (of_int 1502668139192424 :: u64) * h3 + (of_int 1502668139192424 :: u64) * of_int e3"
    unfolding h4_def by (rule scale_step) simp
  have s3: "(of_int 1502668139192424 :: u64) * h3 = (of_int 3153761341196424 :: u64) * h2 + (of_int 3153761341196424 :: u64) * of_int e2"
    unfolding h3_def by (rule scale_step) simp
  have s2: "(of_int 3153761341196424 :: u64) * h2 = (of_int (- 34565402979970264) :: u64) * h1 + (of_int (- 34565402979970264) :: u64) * of_int e1"
    unfolding h2_def by (rule scale_step) simp
  have s1: "(of_int (- 34565402979970264) :: u64) * h1 = (of_int (- 6361988608675256) :: u64) * h0 + (of_int (- 6361988608675256) :: u64) * of_int e0"
    unfolding h1_def by (rule scale_step) simp
  have s0: "(of_int (- 6361988608675256) :: u64) * h0 = (of_int 9092631485585167336 :: u64)"
    unfolding h0_def by simp
  define Q where "Q = 9092631485585167336 + (- 6361988608675256) * e0 + (- 34565402979970264) * e1 + 3153761341196424 * e2 + 1502668139192424 * e3 + (- 17960496990113592) * e4 + (- 6072505367300184) * e5 + (- 8486092556207352) * e6"
  have "(11795217305443723496 :: u64) * h7 = of_int Q"
    unfolding Q_def by (simp only: s7 s6 s5 s4 s3 s2 s1 s0 of_int_add of_int_mult)
  then have "(of_int Q :: u64) = 0"
    using h7 by simp
  then have "2 ^ 64 dvd Q"
    by (simp add: word_of_int_eq_0_iff)
  moreover have "0 < Q" "Q < 2 ^ 64"
    unfolding Q_def using e0 e1 e2 e3 e4 e5 e6 by simp_all
  ultimately show False
    using zdvd_not_zless by blast
qed

lemma hash_draw_nonzero: "hash_ticket (fst (draw_one st)) \<noteq> 0"
proof -
  let ?t = "fst (draw_one st)"
  note d = draw_one_with_ticket [of xorshift128plus st, folded draw_one_def]
  have "\<forall>i<7. 0 \<le> ?t ! i \<and> ?t ! i < 64"
  proof (intro allI impI)
    fix i :: nat
    assume "i < 7"
    then have "?t ! i \<in> set ?t"
      using d(1) by simp
    then have "?t ! i \<in> {1..49}"
      using d(3) by blast
    then show "0 \<le> ?t ! i \<and> ?t ! i < 64"
      by simp
  qed
  then show ?thesis
    by (rule hash_ticket_nonzero)
qed

lemma draw_unique_nonzero:
  "draw_unique g st = Some r \<Longrightarrow> (\<forall>t h st'. r = Inr (t, h, st') \<longrightarrow> hash_ticket t \<noteq> 0)"
  by (rule draw_unique.raw_induct
        [where P = "\<lambda>g st r. \<forall>t h st'. r = Inr (t, h, st') \<longrightarrow> hash_ticket t \<noteq> 0"])
    (auto simp: hash_draw_nonzero split: option.splits sum.splits if_splits)

lemma emit_printed:
  assumes "emit n rs = Some (Inr rs')"
  shows "\<exists>t. printed rs' = printed rs @ [t] \<and> hash_ticket t \<noteq> 0"
proof -
  from assms obtain t h st where
    d: "draw_unique (grd rs) (rng rs) = Some (Inr (t, h, st))"
    by (auto simp: emit_def split: option.splits sum.splits)
  then have "hash_ticket t \<noteq> 0"
    using draw_unique_nonzero by blast
  with assms d show ?thesis
    by (auto simp: emit_def split: sum.splits)
qed

lemma generate_nonzero:
  "generate k (start entropy) = Some (Inr rs) \<Longrightarrow> 0 \<notin> set (map hash_ticket (printed rs))"
proof (induction k arbitrary: rs)
  case 0
  then show ?case by (auto simp: start_def)
next
  case (Suc k)
  then obtain rs0 where g: "generate k (start entropy) = Some (Inr rs0)"
    and e: "emit (Suc k) rs0 = Some (Inr rs)"
    by (auto split: option.splits sum.splits)
  from emit_printed [OF e] obtain t where "printed rs = printed rs0 @ [t]" "hash_ticket t \<noteq> 0"
    by blast
  with Suc.IH [OF g] show ?case
    by auto
qed

lemma stored_zero_leaves_table: "(replicate 1024 (0 :: u64))[0 := 0] = replicate 1024 0"
  by (rule list_update_id [of "replicate 1024 (0 :: u64)" 0, simplified])

text \<open>
  C4 (as the code has it). Zero is the empty-slot marker of the table, and the guard
  does not handle a fingerprint of exactly 0: on no table does \<^verbatim>\<open>already_seen(0)\<close>
  return 1. The program never gives it one: \<^verbatim>\<open>hash_ticket\<close> is non-zero on every ticket
  of seven values in 1..49, hence on every ticket \<^verbatim>\<open>draw_one\<close> makes, which are the only
  fingerprints \<^verbatim>\<open>main\<close> passes to \<^verbatim>\<open>already_seen\<close> and \<^verbatim>\<open>remember\<close>; and in the table of
  every run, after \<open>k\<close> accepted tickets, a slot is zero exactly when it is empty (its
  index is \<open>k\<close> or more).
\<close>

theorem zero_marks_empty_slot:
  "already_seen g 0 \<noteq> Some (Inr True)
   \<and> (length t = 7 \<longrightarrow> set t \<subseteq> {1..49} \<longrightarrow> hash_ticket t \<noteq> 0)
   \<and> hash_ticket (fst (draw_one st)) \<noteq> 0
   \<and> (generate k (start entropy) = Some (Inr rs) \<longrightarrow>
        (\<forall>i < length (table (grd rs)). (table (grd rs) ! i = 0) = (k \<le> i)))"
proof (intro conjI impI allI)
  show "already_seen g 0 \<noteq> Some (Inr True)"
    using probe_zero_never_found [where h = 0 and r = "Inr True"]
    by (auto simp: already_seen_def Let_def split: option.splits)
next
  assume len: "length t = 7" and pool: "set t \<subseteq> {1..49}"
  have "\<forall>i<7. 0 \<le> t ! i \<and> t ! i < 64"
  proof (intro allI impI)
    fix i :: nat
    assume "i < 7"
    then have "t ! i \<in> set t"
      using len by simp
    then have "t ! i \<in> {1..49}"
      using pool by blast
    then show "0 \<le> t ! i \<and> t ! i < 64"
      by simp
  qed
  then show "hash_ticket t \<noteq> 0"
    by (rule hash_ticket_nonzero)
next
  show "hash_ticket (fst (draw_one st)) \<noteq> 0"
    by (rule hash_draw_nonzero)
next
  fix i
  assume g: "generate k (start entropy) = Some (Inr rs)" and i: "i < length (table (grd rs))"
  note t = table_inv_table [OF generate_inv [OF g]]
  show "(table (grd rs) ! i = 0) = (k \<le> i)"
  proof (cases "i < k")
    case True
    then have "table (grd rs) ! i = map hash_ticket (printed rs) ! i"
      using t by (simp add: nth_append)
    moreover have "map hash_ticket (printed rs) ! i \<in> set (map hash_ticket (printed rs))"
      using True t(2) by (intro nth_mem) simp
    ultimately have "table (grd rs) ! i \<noteq> 0"
      using generate_nonzero [OF g] by metis
    with True show ?thesis by simp
  next
    case False
    then have "table (grd rs) ! i = 0"
      using t i by (simp add: nth_append)
    with False show ?thesis by simp
  qed
qed

text \<open>
  C4 as stated fails: \<^verbatim>\<open>remember(0, 0)\<close> on the fresh table leaves the 1024 zeroed slots
  as \<^verbatim>\<open>calloc\<close> made them, and \<^verbatim>\<open>already_seen(0)\<close> on that table returns 0 ("not seen"),
  although slot 0 is where the lookup of 0 starts.
\<close>

theorem zero_fingerprint_not_found:
  "remember no_guard 0 0 = Inr \<lparr>seen = Some (calloc 1024), capacity = 1024\<rparr>
   \<and> already_seen \<lparr>seen = Some (calloc 1024), capacity = 1024\<rparr> 0 = Some (Inr False)"
proof
  show "remember no_guard 0 0 = Inr \<lparr>seen = Some (calloc 1024), capacity = 1024\<rparr>"
    by (simp add: remember_def no_guard_def calloc_def Let_def stored_zero_leaves_table)
next
  have "replicate 1024 (0 :: u64) ! unat (0 :: u64) = 0"
    by simp
  then have "probe (replicate 1024 0) (of_nat 1024 - 1) 0 (0 AND (of_nat 1024 - 1))
               = Some (Inr False)"
    by (subst probe.simps) simp
  then show "already_seen \<lparr>seen = Some (calloc 1024), capacity = 1024\<rparr> 0 = Some (Inr False)"
    by (simp add: already_seen_def calloc_def Let_def)
qed


subsection \<open>A run asked for more than 1024 tickets\<close>

text \<open>
  A lookup stays inside the block, and on a block without a zero slot it can only
  return 1. After 1024 accepted tickets the table is such a block, since no fingerprint
  is zero and the table grows only in the next \<^verbatim>\<open>remember\<close>: every draw for ticket 1025
  either is found (and the \<^verbatim>\<open>do\<close> loop draws again) or sends the probe loop round the
  block for ever. The run never gets past ticket 1024.
\<close>

lemma probe_in_block:
  assumes "m \<le> 64" "length tbl = 2 ^ m"
  shows "probe tbl (2 ^ m - 1) h i = Some r \<Longrightarrow> unat i < 2 ^ m \<Longrightarrow>
         (\<exists>b. r = Inr b) \<and> (0 \<notin> set tbl \<longrightarrow> r = Inr True)"
proof -
  let ?Q = "\<lambda>r. (\<exists>b. r = Inr b) \<and> (0 \<notin> set tbl \<longrightarrow> r = Inr True)"
  have "probe tbl' msk h' i' = Some r \<Longrightarrow>
        tbl' = tbl \<and> msk = 2 ^ m - 1 \<and> unat i' < 2 ^ m \<longrightarrow> ?Q r" for tbl' msk h' i' r
  proof (rule probe.raw_induct
      [where P = "\<lambda>tbl' msk h' i' r. tbl' = tbl \<and> msk = 2 ^ m - 1 \<and> unat i' < 2 ^ m \<longrightarrow> ?Q r"],
      goal_cases)
    case (1 probe' tbl' msk h' i' r)
    show ?case
    proof
      assume a: "tbl' = tbl \<and> msk = 2 ^ m - 1 \<and> unat i' < 2 ^ m"
      then have in_set: "tbl ! unat i' \<in> set tbl" and inb: "\<not> length tbl \<le> unat i'"
        using assms(2) by simp_all
      have nxt: "unat ((i' + 1) AND (2 ^ m - 1)) < 2 ^ m"
        by (simp only: unat_next_slot [OF assms(1)]) simp
      show "?Q r"
      proof (cases "tbl ! unat i' = 0")
        case True
        with a inb 1 in_set show ?thesis by auto
      next
        case nz: False
        show ?thesis
        proof (cases "tbl ! unat i' = h'")
          case True
          with a inb nz 1 show ?thesis by auto
        next
          case False
          with a inb nz 1 have "probe' tbl (2 ^ m - 1) h' ((i' + 1) AND (2 ^ m - 1)) = Some r"
            by simp
          with 1 nxt show ?thesis by blast
        qed
      qed
    qed
  qed
  then show "probe tbl (2 ^ m - 1) h i = Some r \<Longrightarrow> unat i < 2 ^ m \<Longrightarrow> ?Q r"
    by blast
qed

lemma already_seen_in_block:
  assumes "seen g = Some tbl" "length tbl = capacity g" "capacity g = 2 ^ m" "m \<le> 64"
    and "already_seen g h = Some r"
  shows "(\<exists>b. r = Inr b) \<and> (0 \<notin> set tbl \<longrightarrow> r = Inr True)"
proof -
  have "unat (h AND (2 ^ m - 1)) < 2 ^ m"
    by (simp only: unat_and_pow2_mask) simp
  moreover have "probe tbl (2 ^ m - 1) h (h AND (2 ^ m - 1)) = Some r"
    using assms(1,3,5) by (simp add: already_seen_def Let_def)
  ultimately show ?thesis
    using assms(2,3,4) by (intro probe_in_block [of m tbl h _ r]) simp_all
qed

lemma draw_unique_no_fault:
  assumes "\<And>h f. already_seen g h \<noteq> Some (Inl f)"
  shows "draw_unique g st \<noteq> Some (Inl f)"
proof -
  have "draw_unique g' st' = Some r \<Longrightarrow> g' = g \<longrightarrow> (\<exists>x. r = Inr x)" for g' st' r
    by (rule draw_unique.raw_induct [where P = "\<lambda>g' st' r. g' = g \<longrightarrow> (\<exists>x. r = Inr x)"])
      (use assms in \<open>auto split: option.splits sum.splits if_splits\<close>)
  then show ?thesis
    by blast
qed

lemma draw_unique_full_table:
  assumes "\<And>h r. already_seen g h = Some r \<Longrightarrow> r = Inr True"
  shows "draw_unique g st = None"
proof -
  have "draw_unique g' st' = Some r \<Longrightarrow> g' = g \<longrightarrow> False" for g' st' r
  proof (rule draw_unique.raw_induct [where P = "\<lambda>g' st' r. g' = g \<longrightarrow> False"], goal_cases)
    case (1 du g' st' r)
    show ?case
    proof
      assume eq: "g' = g"
      let ?h = "hash_ticket (fst (draw_one st'))"
      consider "already_seen g ?h = None" | "already_seen g ?h = Some (Inr True)"
        using assms [of ?h] by (cases "already_seen g ?h") auto
      then show False
      proof cases
        case 1
        with \<open>(case already_seen g' ?h of None \<Rightarrow> None | Some (Inl f) \<Rightarrow> Some (Inl f)
              | Some (Inr dup) \<Rightarrow> if dup then du g' (snd (draw_one st'))
                  else Some (Inr (fst (draw_one st'), ?h, snd (draw_one st')))) = Some r\<close> eq
        show False by simp
      next
        case 2
        with \<open>(case already_seen g' ?h of None \<Rightarrow> None | Some (Inl f) \<Rightarrow> Some (Inl f)
              | Some (Inr dup) \<Rightarrow> if dup then du g' (snd (draw_one st'))
                  else Some (Inr (fst (draw_one st'), ?h, snd (draw_one st')))) = Some r\<close> eq
        have "du g (snd (draw_one st')) = Some r" by simp
        with \<open>\<And>g' st' r. du g' st' = Some r \<Longrightarrow> g' = g \<longrightarrow> False\<close> show False by blast
      qed
    qed
  qed
  then have none: "draw_unique g st \<noteq> Some r" for r
    by blast
  show ?thesis
  proof (rule ccontr)
    assume "draw_unique g st \<noteq> None"
    then obtain r where "draw_unique g st = Some r"
      by blast
    with none [of r] show False
      by simp
  qed
qed

lemma generate_no_fault:
  "k \<le> 1024 \<Longrightarrow> generate k (start entropy) \<noteq> Some (Inl f)"
proof (induction k arbitrary: f)
  case 0
  then show ?case by simp
next
  case (Suc k)
  show ?case
  proof (cases "generate k (start entropy)")
    case None
    then show ?thesis by simp
  next
    case (Some x)
    with Suc obtain rs where g: "generate k (start entropy) = Some (Inr rs)"
      by (cases x) auto
    note inv = generate_inv [OF g]
    have seen_ok: "already_seen (grd rs) h \<noteq> Some (Inl f')" for h f'
    proof (cases "k = 0")
      case True
      with inv show ?thesis
        by (simp add: table_inv_def already_seen_def no_guard_def)
    next
      case False
      then have cap: "capacity (grd rs) = 1024"
        using table_inv_capacity [OF inv] Suc.prems by simp
      let ?tbl = "map hash_ticket (printed rs) @ replicate (1024 - k) (0 :: u64)"
      have a: "seen (grd rs) = Some ?tbl"
        using inv False cap by (simp add: table_inv_def)
      have b: "length ?tbl = capacity (grd rs)"
        using inv Suc.prems cap by (simp add: table_inv_def)
      have c: "capacity (grd rs) = 2 ^ 10"
        using cap by simp
      show ?thesis
        using already_seen_in_block [OF a b c, of h "Inl f'"] by auto
    qed
    have "draw_unique (grd rs) (rng rs) \<noteq> Some (Inl f)"
      using seen_ok by (rule draw_unique_no_fault)
    moreover have "remember (grd rs) h k \<noteq> Inl f"
      if "draw_unique (grd rs) (rng rs) = Some (Inr (t, h, st))" for t h st
    proof -
      have "h = hash_ticket t"
        using draw_unique_fingerprint [OF that] by blast
      then show ?thesis
        using remember_next [OF inv, of t] by auto
    qed
    ultimately have "emit (Suc k) rs \<noteq> Some (Inl f)"
      by (auto simp: emit_def split: option.splits sum.splits)
    with g show ?thesis by simp
  qed
qed

lemma generate_1025_hangs: "generate (Suc 1024) (start entropy) = None"
proof (cases "generate 1024 (start entropy)")
  case None
  then show ?thesis by (simp only: generate.simps option.case)
next
  case (Some x)
  with generate_no_fault [of 1024 entropy] obtain rs where
    g: "generate 1024 (start entropy) = Some (Inr rs)"
    by (cases x) auto
  note inv = generate_inv [OF g]
  have cap: "capacity (grd rs) = 1024"
    using table_inv_capacity [OF inv] by simp
  have tbl: "seen (grd rs) = Some (map hash_ticket (printed rs))"
    using inv cap by (simp add: table_inv_def)
  have len: "length (map hash_ticket (printed rs)) = capacity (grd rs)"
    using inv cap by (simp add: table_inv_def)
  have c: "capacity (grd rs) = 2 ^ 10"
    using cap by simp
  have z: "0 \<notin> set (map hash_ticket (printed rs))"
    using g by (rule generate_nonzero)
  have "r = Inr True" if "already_seen (grd rs) h = Some r" for h r
    using already_seen_in_block [OF tbl len c _ that] z by simp
  then have "draw_unique (grd rs) (rng rs) = None"
    by (rule draw_unique_full_table)
  then have e: "emit (Suc 1024) rs = None"
    by (simp add: emit_def)
  show ?thesis
    by (simp only: generate.simps g option.case sum.case e)
qed

lemma generate_hangs_on: "generate k rs = None \<Longrightarrow> generate (k + n) rs = None"
  by (induction n) simp_all

lemma run_hangs_past_1024:
  assumes "1025 \<le> parse_want argv"
  shows "main_portable entropy argv = None"
proof -
  from assms have "Suc 1024 \<le> nat (parse_want argv)"
    by simp
  then have "nat (parse_want argv) = Suc 1024 + (nat (parse_want argv) - Suc 1024)"
    by (simp only: le_add_diff_inverse)
  then have "generate (nat (parse_want argv)) (start entropy) = None"
    using generate_hangs_on [OF generate_1025_hangs, of "nat (parse_want argv) - Suc 1024" entropy]
    by (simp only:)
  then show ?thesis
    by (simp add: main_portable_def)
qed

text \<open>
  When \<^verbatim>\<open>main\<close> returns, it returns 0 after printing as many tickets as were asked for:
  there is no other \<^verbatim>\<open>return\<close> in it.
\<close>

lemma generate_returns_count:
  "generate k rs0 = Some (Inr rs) \<Longrightarrow> length (printed rs) = length (printed rs0) + k"
proof (induction k arbitrary: rs)
  case 0
  then show ?case by simp
next
  case (Suc k)
  then obtain rs1 where g: "generate k rs0 = Some (Inr rs1)" and e: "emit (Suc k) rs1 = Some (Inr rs)"
    by (auto split: option.splits sum.splits)
  from e have "length (printed rs) = Suc (length (printed rs1))"
    by (auto simp: emit_def split: option.splits sum.splits)
  with Suc.IH [OF g] show ?case by simp
qed

lemma parse_want_positive: "1 \<le> parse_want argv"
  by (simp add: parse_want_def Let_def split: prod.splits)

lemma main_returns_zero:
  assumes "main_portable entropy argv = Some (Inr (code, out))"
  shows "code = 0 \<and> int (length out) = parse_want argv"
proof -
  from assms obtain rs where g: "generate (nat (parse_want argv)) (start entropy) = Some (Inr rs)"
    and r: "code = 0" "out = printed rs"
    by (auto simp: main_portable_def split: option.splits sum.splits)
  from generate_returns_count [OF g] parse_want_positive [of argv] r show ?thesis
    by (simp add: start_def)
qed

lemma parse_big: "parse_want [''lotto649'', ''601304089''] = 601304089"
  by (simp add: parse_want_def strtol_def isspace_def isdigit_def digits_value_def Let_def)


subsection \<open>Counting the outcomes\<close>

lemma choose_step:
  "numeral n choose numeral k
     = (numeral n * (pred_numeral n choose pred_numeral k)) div numeral k"
  using binomial_Suc_Suc_eq_times [of "pred_numeral n" "pred_numeral k"]
  by (simp only: numeral_eq_Suc)

lemma choose_49_6: "(49 choose 6 :: nat) = 13983816"
  by (simp add: choose_step)

lemma six_subsets:
  "finite {M. M \<subseteq> {1..49 :: int} \<and> card M = 6}"
  "card {M. M \<subseteq> {1..49 :: int} \<and> card M = 6} = 13983816"
proof -
  show "finite {M. M \<subseteq> {1..49 :: int} \<and> card M = 6}"
    by simp
  have "card {M. M \<subseteq> {1..49 :: int} \<and> card M = 6} = card {1..49 :: int} choose 6"
    by (rule n_subsets) simp
  then show "card {M. M \<subseteq> {1..49 :: int} \<and> card M = 6} = 13983816"
    by (simp add: choose_49_6)
qed

lemma card_splits: "finite splits" "card splits = 601304088"
proof -
  have fin: "\<forall>M \<in> {M. M \<subseteq> {1..49 :: int} \<and> card M = 6}. finite ({1..49} - M)"
    by simp
  show "finite splits"
    unfolding splits_def by (intro finite_SigmaI) simp_all
  have "card ({1..49 :: int} - M) = 43" if "M \<subseteq> {1..49}" "card M = 6" for M
  proof -
    have "finite M" using that(1) by (rule finite_subset) simp
    then have "card ({1..49 :: int} - M) = card {1..49 :: int} - card M"
      using that(1) by (intro card_Diff_subset)
    then show ?thesis using that(2) by simp
  qed
  then have "(\<Sum>M \<in> {M. M \<subseteq> {1..49 :: int} \<and> card M = 6}. card ({1..49} - M))
               = (\<Sum>M \<in> {M. M \<subseteq> {1..49 :: int} \<and> card M = 6}. 43)"
    by (intro sum.cong) simp_all
  then show "card splits = 601304088"
    unfolding splits_def by (simp only: card_SigmaI [OF six_subsets(1) fin] sum_constant six_subsets(2)) simp
qed

lemma ticket_of_facts:
  assumes "p \<in> splits"
  shows "length (sorted_list_of_set (fst p)) = 6" "set (sorted_list_of_set (fst p)) = fst p"
    "ticket_of p \<in> outcomes"
proof -
  obtain M b where p: "p = (M, b)" by (cases p)
  from assms have M: "M \<subseteq> {1..49}" "card M = 6" and b: "b \<in> {1..49}" "b \<notin> M"
    by (auto simp: splits_def p)
  have fin: "finite M" using M(1) by (rule finite_subset) simp
  define sl where "sl = sorted_list_of_set M"
  have len': "length sl = 6"
    using M(2) by (simp add: sl_def)
  have set': "set sl = M"
    using fin by (simp add: sl_def)
  have sorted': "sorted_wrt (<) sl"
    unfolding sl_def by (rule strict_sorted_list_of_set)
  then have dist': "distinct sl"
    by (simp add: strict_sorted_iff)
  show "length (sorted_list_of_set (fst p)) = 6"
    using len' by (simp add: p sl_def)
  show "set (sorted_list_of_set (fst p)) = fst p"
    using set' by (simp add: p sl_def)
  have "length (sl @ [b]) = 7" using len' by simp
  moreover have "distinct (sl @ [b])" using dist' set' b(2) by simp
  moreover have "set (sl @ [b]) \<subseteq> {1..49}" using set' M(1) b(1) by simp
  moreover have "sorted_wrt (<) (take 6 (sl @ [b]))" using len' sorted' by simp
  ultimately have "sl @ [b] \<in> outcomes"
    by (simp only: outcomes_def mem_Collect_eq simp_thms)
  then show "ticket_of p \<in> outcomes"
    by (simp only: ticket_of_def p fst_conv snd_conv sl_def)
qed

lemma inj_ticket_of: "inj_on ticket_of splits"
proof (rule inj_onI)
  fix p q assume p: "p \<in> splits" and q: "q \<in> splits" and eq: "ticket_of p = ticket_of q"
  note fp = ticket_of_facts(1,2) [OF p] and fq = ticket_of_facts(1,2) [OF q]
  from eq have sl: "sorted_list_of_set (fst p) = sorted_list_of_set (fst q)"
    and b: "snd p = snd q"
    using fp(1) fq(1) by (simp_all add: ticket_of_def)
  have "fst p = set (sorted_list_of_set (fst p))"
    using fp(2) by (rule sym)
  also have "\<dots> = set (sorted_list_of_set (fst q))"
    by (simp only: sl)
  also have "\<dots> = fst q"
    by (rule fq(2))
  finally show "p = q"
    using b by (rule prod_eqI)
qed

lemma outcomes_image: "outcomes = ticket_of ` splits"
proof (rule set_eqI, rule iffI)
  fix t assume "t \<in> ticket_of ` splits"
  then show "t \<in> outcomes" using ticket_of_facts(3) by auto
next
  fix t assume t: "t \<in> outcomes"
  then have len: "length t = 7" and d: "distinct t" and r: "set t \<subseteq> {1..49}"
    and s: "sorted_wrt (<) (take 6 t)"
    by (simp_all add: outcomes_def)
  have split: "t = take 6 t @ [t ! 6]"
    using len by (simp add: take_Suc_conv_app_nth [of 6 t, simplified, symmetric])
  define M where "M = set (take 6 t)"
  have "distinct (take 6 t)" using d by simp
  then have card: "card M = 6" using len by (simp add: M_def distinct_card)
  have sub: "M \<subseteq> {1..49}" using r set_take_subset [of 6 t] by (auto simp: M_def)
  have "distinct (take 6 t @ [t ! 6])" using d split by simp
  then have notin: "t ! 6 \<notin> M" by (simp add: M_def)
  have "t ! 6 \<in> set t" using len by simp
  then have b: "t ! 6 \<in> {1..49}" using r by blast
  have "sorted_list_of_set M = take 6 t"
    unfolding M_def using s
    by (intro sorted_list_of_set.idem_if_sorted_distinct)
      (simp_all add: strict_sorted_iff)
  then have "ticket_of (M, t ! 6) = t"
    using split by (simp add: ticket_of_def)
  moreover have "(M, t ! 6) \<in> splits"
    using sub card b notin by (simp add: splits_def)
  ultimately show "t \<in> ticket_of ` splits" by (metis image_eqI)
qed

lemma card_outcomes: "finite outcomes" "card outcomes = 601304088"
  using card_splits card_image [OF inj_ticket_of] by (simp_all add: outcomes_image)

subsection \<open>Counting the output sequences\<close>

lemma card_outputs48: "finite outputs48" "card outputs48 = (2 ^ 64) ^ 48"
proof -
  have eq: "outputs48 = {rs. set rs \<subseteq> UNIV \<and> length rs = 48}"
    by (simp add: outputs48_def)
  show "finite outputs48"
    unfolding eq by (rule finite_lists_length_eq) simp
  have "card outputs48 = card (UNIV :: u64 set) ^ 48"
    unfolding eq by (rule card_lists_length_eq) simp
  then show "card outputs48 = (2 ^ 64) ^ 48"
    by (simp only: card_word) simp
qed

lemma outcome_in_outcomes: "outcome rs \<in> outcomes"
  using draw_one_with_ticket [of replay rs] by (simp add: outcome_def outcomes_def)

lemma three_not_dvd_power_two: "\<not> 3 dvd (2 :: nat) ^ n"
proof (induction n)
  case 0
  then show ?case by simp
next
  case (Suc n)
  have "coprime (3 :: nat) 2" by simp
  then have "(3 :: nat) dvd 2 * 2 ^ n \<longleftrightarrow> (3 :: nat) dvd 2 ^ n"
    by (rule coprime_dvd_mult_right_iff)
  with Suc show ?case by simp
qed

lemma fibres_not_equal:
  "\<not> (\<exists>c. \<forall>t \<in> outcomes. card {rs \<in> outputs48. outcome rs = t} = c)"
proof
  assume "\<exists>c. \<forall>t \<in> outcomes. card {rs \<in> outputs48. outcome rs = t} = c"
  then obtain c where c: "\<forall>t \<in> outcomes. card {rs \<in> outputs48. outcome rs = t} = c"
    by blast
  have "(\<Sum>t \<in> outcomes. \<Sum>rs \<in> {rs. rs \<in> outputs48 \<and> outcome rs = t}. 1) = (\<Sum>rs \<in> outputs48. (1 :: nat))"
    using card_outputs48(1) card_outcomes(1)
    by (rule sum.group) (auto simp: outcome_in_outcomes)
  then have "(\<Sum>t \<in> outcomes. card {rs \<in> outputs48. outcome rs = t}) = card outputs48"
    by simp
  moreover have "(\<Sum>t \<in> outcomes. card {rs \<in> outputs48. outcome rs = t}) = (\<Sum>t \<in> outcomes. c)"
    using c by (intro sum.cong) simp_all
  ultimately have "card outcomes * c = card outputs48"
    by simp
  then have "601304088 * c = (2 :: nat) ^ (64 * 48)"
    by (simp only: card_outcomes(2) card_outputs48(2) power_mult)
  moreover have "(3 :: nat) dvd 601304088 * c"
    by (rule dvd_mult2) simp
  ultimately have "(3 :: nat) dvd 2 ^ (64 * 48)"
    by (simp only:)
  then show False
    using three_not_dvd_power_two by blast
qed


subsection \<open>Every outcome is reachable\<close>

lemma replay_Cons: "replay (r # rs) = (r, rs)"
  by (simp add: replay_def)

lemma unat_of_nat_mod_small:
  assumes "j < n" "n < 2 ^ 64"
  shows "unat (of_nat j mod of_nat n :: u64) = j"
proof -
  have "unat (of_nat j :: u64) = j" "unat (of_nat n :: u64) = n"
    using assms by (simp_all add: unat_of_nat)
  then show ?thesis
    using assms(1) by (simp add: unat_mod)
qed

lemma swap_nth_target:
  assumes "j \<le> i" "i < length pool"
  shows "swap pool i j ! i = pool ! j"
  using assms by (cases "j = i") (simp_all add: swap_def nth_list_update)

lemma swap_drop:
  assumes "j \<le> i"
  shows "drop (Suc i) (swap pool i j) = drop (Suc i) pool"
  using assms by (simp add: swap_def drop_update_cancel)

lemma mset_take_of_mset_drop:
  assumes "mset xs = mset ys" "drop n xs = drop n ys"
  shows "mset (take n xs) = mset (take n ys)"
proof -
  have "mset (take n xs) + mset (drop n xs) = mset (take n ys) + mset (drop n ys)"
    using assms(1) by (simp only: union_code append_take_drop_id)
  then show ?thesis
    by (simp add: assms(2))
qed

lemma shuffle_replay_reaches:
  "length q = length pool \<Longrightarrow> i < length pool \<Longrightarrow> length pool < 2 ^ 64 \<Longrightarrow>
   mset (take (Suc i) q) = mset (take (Suc i) pool) \<Longrightarrow>
   drop (Suc i) q = drop (Suc i) pool \<Longrightarrow>
   \<exists>rs. length rs = i \<and> (\<forall>tl. shuffle replay i pool (rs @ tl) = (q, tl))"
proof (induction i arbitrary: pool)
  case 0
  have "take (Suc 0) q = [q ! 0]" "take (Suc 0) pool = [pool ! 0]"
    using "0.prems"(1,2) by (simp_all add: take_Suc_conv_app_nth)
  then have "q ! 0 = pool ! 0"
    using "0.prems"(4) by simp
  moreover have "q = q ! 0 # drop (Suc 0) q" "pool = pool ! 0 # drop (Suc 0) pool"
    using "0.prems"(1,2) by (simp_all add: Cons_nth_drop_Suc)
  ultimately have "q = pool"
    using "0.prems"(5) by metis
  then show ?case by simp
next
  case (Suc i)
  let ?n = "Suc (Suc i)"
  have qn: "take ?n q = take (Suc i) q @ [q ! Suc i]"
    using Suc.prems(1,2) by (simp add: take_Suc_conv_app_nth)
  then have "q ! Suc i \<in> set (take ?n q)"
    by simp
  then have "q ! Suc i \<in> set (take ?n pool)"
    using Suc.prems(4) by (metis mset_eq_setD)
  then obtain j where j: "j < ?n" "pool ! j = q ! Suc i"
    using Suc.prems(2) by (auto simp: in_set_conv_nth)
  then have ji: "j \<le> Suc i" by simp
  let ?pool = "swap pool (Suc i) j"
  have len: "length q = length ?pool" "i < length ?pool" "length ?pool < 2 ^ 64"
    using Suc.prems(1,2,3) by simp_all
  have at: "?pool ! Suc i = q ! Suc i"
    using swap_nth_target [OF ji Suc.prems(2)] j(2) by simp
  have dr: "drop ?n ?pool = drop ?n pool"
    using ji by (rule swap_drop)
  have "mset ?pool = mset pool"
    using ji Suc.prems(2) by (intro mset_swap_pool) simp_all
  then have "mset (take ?n ?pool) = mset (take ?n pool)"
    using dr by (rule mset_take_of_mset_drop)
  then have same: "mset (take ?n ?pool) = mset (take ?n q)"
    using Suc.prems(4) by (simp only:)
  have "take ?n ?pool = take (Suc i) ?pool @ [?pool ! Suc i]"
    using Suc.prems(2) by (simp add: take_Suc_conv_app_nth)
  then have e1: "mset (take ?n ?pool) = add_mset (q ! Suc i) (mset (take (Suc i) ?pool))"
    by (simp only: at) simp
  have e2: "mset (take ?n q) = add_mset (q ! Suc i) (mset (take (Suc i) q))"
    by (simp only: qn) simp
  have "add_mset (q ! Suc i) (mset (take (Suc i) q))
          = add_mset (q ! Suc i) (mset (take (Suc i) ?pool))"
    using same by (simp only: e1 e2)
  then have ms: "mset (take (Suc i) q) = mset (take (Suc i) ?pool)"
    by simp
  have "drop (Suc i) q = q ! Suc i # drop ?n q"
    using Suc.prems(1,2) by (simp add: Cons_nth_drop_Suc)
  moreover have "drop (Suc i) ?pool = ?pool ! Suc i # drop ?n ?pool"
    using Suc.prems(2) by (simp add: Cons_nth_drop_Suc)
  ultimately have dr': "drop (Suc i) q = drop (Suc i) ?pool"
    using at dr Suc.prems(5) by simp
  obtain rs where rs: "length rs = i" "\<And>tl. shuffle replay i ?pool (rs @ tl) = (q, tl)"
    using Suc.IH [OF len ms dr'] by blast
  have "unat (of_nat j mod of_nat (Suc i + 1) :: u64) = j"
    using j(1) Suc.prems(2,3) by (intro unat_of_nat_mod_small) simp_all
  then have "shuffle replay (Suc i) pool ((of_nat j # rs) @ tl) = (q, tl)" for tl
    using rs(2) by (simp add: replay_Cons)
  then show ?case
    using rs(1) by (intro exI [of _ "of_nat j # rs"]) simp
qed

lemma qsort_sorted_id:
  assumes "sorted_wrt (<) xs"
  shows "qsort cmp xs = xs"
proof -
  have "sorted xs" "distinct xs"
    using assms by (simp_all add: strict_sorted_iff)
  moreover have "sorted (qsort cmp xs)"
    using sorted_qsort_diff by (simp add: cmp_is_diff)
  ultimately show ?thesis
    by (intro sorted_distinct_set_unique) simp_all
qed

lemma outcome_reachable:
  assumes "t \<in> outcomes"
  shows "\<exists>rs \<in> outputs48. outcome rs = t"
proof -
  from assms have len: "length t = 7" and d: "distinct t" and r: "set t \<subseteq> {1..49}"
    and s: "sorted_wrt (<) (take 6 t)"
    by (simp_all add: outcomes_def)
  define rest where "rest = sorted_list_of_set ({1..49} - set t)"
  define q where "q = t @ rest"
  let ?pool = "map (\<lambda>i. int i + 1) [0..<49]"
  have dq: "distinct q" and sq: "set q = {1..49}"
    using d r by (auto simp: q_def rest_def)
  have "set q = set ?pool"
    using sq pool_facts(3) by (simp only:)
  then have ms: "mset q = mset ?pool"
    using set_eq_iff_mset_eq_distinct [OF dq pool_facts(2)] by blast
  have lq: "length q = 49"
    using mset_eq_length [OF ms] by simp
  have "\<exists>rs. length rs = 48 \<and> (\<forall>tl. shuffle replay 48 ?pool (rs @ tl) = (q, tl))"
    using ms lq by (intro shuffle_replay_reaches) simp_all
  then obtain rs where rs: "length rs = 48" "shuffle replay 48 ?pool rs = (q, [])"
    by (metis append_Nil2)
  have t7: "take 7 q = t"
    using len by (simp add: q_def)
  have "outcome rs = qsort cmp (take 6 (take 7 q)) @ drop 6 (take 7 q)"
    by (simp only: outcome_def draw_one_with_def rs(2) Let_def prod.case fst_conv)
  then have "outcome rs = qsort cmp (take 6 t) @ drop 6 t"
    by (simp only: t7)
  also have "\<dots> = take 6 t @ drop 6 t"
    using s by (simp only: qsort_sorted_id)
  finally have "outcome rs = t"
    by simp
  then show ?thesis
    using rs(1) by (auto simp: outputs48_def)
qed

text \<open>
  C5 (what the code does). On the 48 engine outputs that one draw consumes, taken as
  an arbitrary sequence of 64-bit values: every one of the \<open>C(49,6) * 43 = 601304088\<close>
  outcomes (six ascending main numbers and a bonus) is the result for some sequence,
  but the outcomes do not all have the same number of sequences: the \<open>2 ^ 3072\<close>
  sequences are split among 601304088 outcomes, and 601304088 is a multiple of 3. The
  reduction \<^verbatim>\<open>xorshift128plus() % (i + 1)\<close> has a modulo bias whenever \<open>i + 1\<close> is not a
  power of two.
\<close>

theorem draw_one_reachable_not_uniform:
  "(\<forall>t \<in> outcomes. \<exists>rs \<in> outputs48. outcome rs = t)
   \<and> card outcomes = 601304088
   \<and> card outputs48 = 2 ^ 3072
   \<and> \<not> (\<exists>c. \<forall>t \<in> outcomes. card {rs \<in> outputs48. outcome rs = t} = c)"
proof -
  have "card outputs48 = 2 ^ 3072"
    by (simp only: card_outputs48(2) power_mult [symmetric]) simp
  then show ?thesis
    using outcome_reachable card_outcomes(2) fibres_not_equal by blast
qed


theorem draw_one_reachable_not_uniform_witness:
  "[1, 2, 3, 4, 5, 6, 7] \<in> outcomes
   \<and> (\<exists>rs \<in> outputs48. outcome rs = [1, 2, 3, 4, 5, 6, 7])"
proof -
  have "[1, 2, 3, 4, 5, 6, 7] \<in> outcomes"
    by (simp add: outcomes_def)
  with draw_one_reachable_not_uniform show ?thesis
    by blast
qed

subsection \<open>A run asked for more tickets than there are\<close>

lemma parse_milliard: "parse_want [''lotto649'', ''1000000000''] = 1000000000"
  by (simp add: parse_want_def strtol_def isspace_def isdigit_def digits_value_def Let_def)

text \<open>
  C3 (as the code has it). The portable variant has no exhaustion error and no bound on
  its draw-fingerprint-check loop: asked for more tickets than the 601,304,088 distinct
  ones, the number of outcomes counted above, the run does not terminate at all,
  whatever the entropy word: \<^verbatim>\<open>main\<close> does not return, with an error or otherwise. (It
  stops making progress after ticket 1024, see above.)
\<close>

theorem run_hangs_when_exhausted:
  assumes "int (card outcomes) < parse_want argv"
  shows "main_portable entropy argv = None"
proof -
  from assms have "1025 \<le> parse_want argv"
    by (simp add: card_outcomes(2))
  then show ?thesis
    by (rule run_hangs_past_1024)
qed

theorem run_hangs_when_exhausted_witness:
  "parse_want [''lotto649'', ''1000000000''] = 1000000000
   \<and> main_portable 0x7ffd101eabcb [''lotto649'', ''1000000000''] = None"
  using run_hangs_when_exhausted [of "[''lotto649'', ''1000000000'']" 140724873898955]
  by (simp add: parse_milliard card_outcomes(2))

text \<open>
  C3 as stated fails: asked for 601,304,089 tickets, one more than there are distinct
  tickets, the run with entropy word 0 does not end with an error; it does not end.
\<close>

theorem exhaustion_counterexample:
  "parse_want [''lotto649'', ''601304089''] = 601304089
   \<and> main_portable 0 [''lotto649'', ''601304089''] = None"
  using run_hangs_past_1024 [of "[''lotto649'', ''601304089'']" 0]
  by (simp add: parse_big)


subsection \<open>Running the engine on numerals\<close>

text \<open>
  The engine step and the shuffle step, read on the unsigned values of the state words:
  the 64-bit wrap-around is a bitwise AND with \<open>2 ^ 64 - 1\<close>. These equations let the
  simplifier run a draw on a concrete state, one loop iteration at a time.
\<close>

lemma mod_2p64_and: "(n :: nat) mod 2 ^ 64 = n AND 18446744073709551615"
proof -
  have "n mod 2 ^ 64 = take_bit 64 n" by (simp add: take_bit_eq_mod)
  also have "\<dots> = n AND mask 64" by (rule take_bit_eq_mask)
  also have "mask 64 = (18446744073709551615 :: nat)" by (simp add: mask_eq_exp_minus_1)
  finally show ?thesis .
qed

lemma shift23_and: "(n :: nat) * 2 ^ 23 mod 2 ^ 64 = (n AND 2199023255551) * 2 ^ 23"
proof -
  have "n * 2 ^ 23 mod 2 ^ 64 = take_bit 64 (push_bit 23 n)"
    by (simp add: take_bit_eq_mod push_bit_eq_mult)
  also have "\<dots> = push_bit 23 (take_bit 41 n)"
    by (simp add: take_bit_push_bit)
  also have "take_bit 41 n = n AND mask 41" by (rule take_bit_eq_mask)
  also have "mask 41 = (2199023255551 :: nat)" by (simp add: mask_eq_exp_minus_1)
  finally show ?thesis by (simp add: push_bit_eq_mult)
qed

lemma of_nat_mod_u64: "(of_nat (n mod 2 ^ 64) :: u64) = of_nat n"
  by (simp add: word_of_nat_eq_iff take_bit_eq_mod)

lemma xorshift128plus_unat:
  "xorshift128plus (a, b) =
     (let x = unat a; y = unat b;
          x1 = x XOR (x AND 2199023255551) * 2 ^ 23;
          s1 = x1 XOR y XOR x1 div 2 ^ 17 XOR y div 2 ^ 26
      in (of_nat ((s1 + y) AND 18446744073709551615), (b, of_nat s1)))"
proof -
  define X1 where "X1 = a XOR push_bit 23 a"
  define S1 where "S1 = X1 XOR b XOR drop_bit 17 X1 XOR drop_bit 26 b"
  have "unat X1 = unat a XOR unat a * 2 ^ 23 mod 2 ^ 64"
    by (simp add: X1_def unsigned_xor_eq push_bit_eq_mult unat_word_ariths)
  then have x1: "unat X1 = unat a XOR (unat a AND 2199023255551) * 2 ^ 23"
    by (simp only: shift23_and)
  have "unat S1 = unat X1 XOR unat b XOR drop_bit 17 (unat X1) XOR drop_bit 26 (unat b)"
    unfolding S1_def by (simp only: unsigned_xor_eq unat_drop_bit_eq)
  then have s1: "unat S1 = unat X1 XOR unat b XOR unat X1 div 2 ^ 17 XOR unat b div 2 ^ 26"
    by (simp only: drop_bit_eq_div)
  have "S1 + b = of_nat (unat S1 + unat b)"
    by simp
  also have "\<dots> = of_nat ((unat S1 + unat b) mod 2 ^ 64)"
    by (simp only: of_nat_mod_u64)
  finally have out: "S1 + b = of_nat ((unat S1 + unat b) AND 18446744073709551615)"
    by (simp only: mod_2p64_and)
  have "xorshift128plus (a, b) = (S1 + b, (b, S1))"
    by (simp add: xorshift128plus_def Let_def S1_def X1_def)
  also have "\<dots> = (of_nat ((unat S1 + unat b) AND 18446744073709551615), (b, of_nat (unat S1)))"
    using out by simp
  finally show ?thesis
    by (simp only: Let_def x1 s1)
qed

lemma unat_u64_numeral: "unat (numeral a :: u64) = numeral a AND 18446744073709551615"
proof -
  have "unat (of_nat (numeral a) :: u64) = numeral a mod 2 ^ LENGTH(64)"
    by (rule unat_of_nat)
  moreover have "LENGTH(64) = 64" by simp
  ultimately have "unat (of_nat (numeral a) :: u64) = numeral a mod 2 ^ 64"
    by (simp only:)
  then show ?thesis
    by (simp only: mod_2p64_and of_nat_numeral)
qed

lemma shuffle_Suc_unat:
  "shuffle xorshift128plus (Suc n) pool (a, b) =
     (let x = unat a; y = unat b;
          x1 = x XOR (x AND 2199023255551) * 2 ^ 23;
          s1 = x1 XOR y XOR x1 div 2 ^ 17 XOR y div 2 ^ 26;
          j = ((s1 + y) AND 18446744073709551615) mod ((n + 2) AND 18446744073709551615)
      in shuffle xorshift128plus n (swap pool (Suc n) j) (b, of_nat s1))"
proof -
  have "unat (of_nat r mod of_nat (Suc n + 1) :: u64) = r mod 2 ^ 64 mod ((n + 2) mod 2 ^ 64)" for r
    by (simp only: unat_mod unat_of_nat) simp
  then have "unat (of_nat (r AND 18446744073709551615) mod of_nat (Suc n + 1) :: u64)
               = (r AND 18446744073709551615) mod ((n + 2) AND 18446744073709551615)" for r
    by (simp only: mod_2p64_and and.assoc and.idem)
  then show ?thesis
    by (simp only: shuffle.simps xorshift128plus_unat Let_def prod.case)
qed

lemma shuffle_numeral:
  "shuffle xorshift128plus (numeral i) pool (numeral a, numeral b) =
     (let x = numeral a AND 18446744073709551615; y = numeral b AND 18446744073709551615;
          x1 = x XOR (x AND 2199023255551) * 2 ^ 23;
          s1 = x1 XOR y XOR x1 div 2 ^ 17 XOR y div 2 ^ 26;
          j = ((s1 + y) AND 18446744073709551615) mod ((numeral i + 1) AND 18446744073709551615)
      in shuffle xorshift128plus (pred_numeral i) (swap pool (numeral i) j) (numeral b, of_nat s1))"
proof -
  have i: "Suc (pred_numeral i) = numeral i"
    by (simp add: numeral_eq_Suc)
  have i2: "pred_numeral i + 2 = numeral i + 1"
    using i by linarith
  from shuffle_Suc_unat [of "pred_numeral i" pool "numeral a" "numeral b"] show ?thesis
    by (simp only: i i2 unat_u64_numeral)
qed

lemma shuffle_one:
  "shuffle xorshift128plus (Suc 0) pool (numeral a, numeral b) =
     (let x = numeral a AND 18446744073709551615; y = numeral b AND 18446744073709551615;
          x1 = x XOR (x AND 2199023255551) * 2 ^ 23;
          s1 = x1 XOR y XOR x1 div 2 ^ 17 XOR y div 2 ^ 26;
          j = ((s1 + y) AND 18446744073709551615) mod 2
      in (swap pool (Suc 0) j, (numeral b, of_nat s1)))"
proof -
  have "(0 + 2 :: nat) AND 18446744073709551615 = 2"
    by (simp add: numeral_2_eq_2 [symmetric])
  with shuffle_Suc_unat [of 0 pool "numeral a" "numeral b"] show ?thesis
    by (simp only: unat_u64_numeral shuffle.simps)
qed

lemmas shuffle_eval = shuffle_numeral shuffle_one

lemma swap_eval: "swap pool i j = (pool[i := pool ! j])[j := pool ! i]"
  by (simp add: swap_def)


subsection \<open>A run that prints the same ticket twice\<close>

text \<open>
  The three draws of the run with the entropy word \<open>0x7ffd101eabcb = 140724873898955\<close>,
  each with the pool as the shuffle leaves it and the engine state after the draw.
\<close>

lemma draw_first:
  "draw_one (140724873898955, 11400587872707074014)
     = ([13, 23, 33, 36, 41, 49, 20], (18124202736744858373, 2046934842820958785))"
proof -
  have "shuffle xorshift128plus 48 (map (\<lambda>i. int i + 1) [0..<49])
          (140724873898955, 11400587872707074014)
        = ([41, 23, 33, 13, 36, 49, 20, 46, 14, 3, 35, 9, 10, 18, 24, 2, 29, 38, 39, 16, 32,
            25, 30, 37, 42, 11, 27, 40, 43, 1, 15, 5, 26, 28, 19, 6, 4, 45, 47, 12, 22, 44,
            8, 7, 31, 21, 34, 48, 17],
           (18124202736744858373, 2046934842820958785))"
    by (simp add: shuffle_eval swap_eval upt_conv_Cons del: shuffle.simps(2)
          cong: let_weak_cong)
  then show ?thesis
    by (simp add: draw_one_def draw_one_with_def qsort_def cmp_def)
qed

lemma hash_first: "hash_ticket [13, 23, 33, 36, 41, 49, 20] = 12500421341057587302"
  by (simp add: hash_ticket_def mix_def upt_conv_Cons)


lemma draw_second:
  "draw_one (18124202736744858373, 2046934842820958785)
     = ([13, 21, 26, 31, 32, 46, 43], (12521680929827993823, 9696114580261742172))"
proof -
  have "shuffle xorshift128plus 48 (map (\<lambda>i. int i + 1) [0..<49])
          (18124202736744858373, 2046934842820958785)
        = ([21, 31, 13, 46, 26, 32, 43, 14, 20, 17, 1, 30, 28, 15, 5, 3, 2, 24, 35, 11, 9, 7,
            4, 8, 48, 6, 29, 40, 23, 27, 12, 33, 22, 16, 19, 42, 44, 36, 10, 49, 37, 38, 45,
            39, 34, 18, 25, 41, 47],
           (12521680929827993823, 9696114580261742172))"
    by (simp add: shuffle_eval swap_eval upt_conv_Cons del: shuffle.simps(2)
          cong: let_weak_cong)
  then show ?thesis
    by (simp add: draw_one_def draw_one_with_def qsort_def cmp_def)
qed

lemma draw_third:
  "draw_one (12521680929827993823, 9696114580261742172)
     = ([13, 23, 33, 36, 41, 49, 20], (5885682269269375050, 17792390065688013992))"
proof -
  have "shuffle xorshift128plus 48 (map (\<lambda>i. int i + 1) [0..<49])
          (12521680929827993823, 9696114580261742172)
        = ([49, 23, 36, 41, 33, 13, 20, 35, 14, 6, 29, 46, 19, 32, 24, 9, 34, 30, 43, 40, 22,
            39, 26, 5, 42, 3, 27, 8, 15, 47, 38, 12, 4, 28, 21, 1, 17, 48, 18, 25, 31, 16, 45,
            11, 44, 37, 10, 7, 2],
           (5885682269269375050, 17792390065688013992))"
    by (simp add: shuffle_eval swap_eval upt_conv_Cons del: shuffle.simps(2)
          cong: let_weak_cong)
  then show ?thesis
    by (simp add: draw_one_def draw_one_with_def qsort_def cmp_def)
qed

lemma hash_second: "hash_ticket [13, 21, 26, 31, 32, 46, 43] = 15408775072775955337"
  by (simp add: hash_ticket_def mix_def upt_conv_Cons)

lemma seed_first: "seed_rng 140724873898955 = (140724873898955, 11400587872707074014)"
  by (simp add: seed_rng_def)


lemma hash_first_slot: "unat (12500421341057587302 :: u64) mod 1024 = 102"
  by simp

lemma hash_second_slot: "unat (15408775072775955337 :: u64) mod 1024 = 905"
  by simp

lemma run_one:
  "\<exists>rs. generate 1 (start 140724873898955) = Some (Inr rs)
        \<and> printed rs = [[13, 23, 33, 36, 41, 49, 20]]
        \<and> rng rs = (18124202736744858373, 2046934842820958785)"
proof -
  have g: "generate 0 (start 140724873898955) = Some (Inr (start 140724873898955))"
    by simp
  have d: "draw_one (rng (start 140724873898955))
      = ([13, 23, 33, 36, 41, 49, 20], (18124202736744858373, 2046934842820958785))"
    by (simp only: start_def run_state.simps seed_first draw_first)
  have "\<exists>rs'. generate (Suc 0) (start 140724873898955) = Some (Inr rs')
      \<and> printed rs' = printed (start 140724873898955) @ [[13, 23, 33, 36, 41, 49, 20]]
      \<and> rng rs' = (18124202736744858373, 2046934842820958785)"
    by (rule generate_accepts [OF g _ d]) simp_all
  then obtain rs' where a: "generate (Suc 0) (start 140724873898955) = Some (Inr rs')"
    and b: "printed rs' = printed (start 140724873898955) @ [[13, 23, 33, 36, 41, 49, 20]]"
    and c: "rng rs' = (18124202736744858373, 2046934842820958785)"
    by blast
  from a have "generate 1 (start 140724873898955) = Some (Inr rs')"
    by (simp only: One_nat_def)
  with b c show ?thesis
    by (simp add: start_def)
qed

lemma run_two:
  "\<exists>rs. generate 2 (start 140724873898955) = Some (Inr rs)
        \<and> printed rs = [[13, 23, 33, 36, 41, 49, 20], [13, 21, 26, 31, 32, 46, 43]]
        \<and> rng rs = (12521680929827993823, 9696114580261742172)"
proof -
  from run_one obtain rs where g: "generate 1 (start 140724873898955) = Some (Inr rs)"
    and p: "printed rs = [[13, 23, 33, 36, 41, 49, 20]]"
    and r: "rng rs = (18124202736744858373, 2046934842820958785)"
    by blast
  have d: "draw_one (rng rs)
      = ([13, 21, 26, 31, 32, 46, 43], (12521680929827993823, 9696114580261742172))"
    by (simp only: r draw_second)
  have slot: "1 \<le> unat (hash_ticket [13, 21, 26, 31, 32, 46, 43]) mod 1024"
    by (simp only: hash_second hash_second_slot)
  have "\<exists>rs'. generate (Suc 1) (start 140724873898955) = Some (Inr rs')
      \<and> printed rs' = printed rs @ [[13, 21, 26, 31, 32, 46, 43]]
      \<and> rng rs' = (12521680929827993823, 9696114580261742172)"
    by (rule generate_accepts [OF g _ d slot]) simp
  then obtain rs' where a: "generate (Suc 1) (start 140724873898955) = Some (Inr rs')"
    and b: "printed rs' = printed rs @ [[13, 21, 26, 31, 32, 46, 43]]"
    and c: "rng rs' = (12521680929827993823, 9696114580261742172)"
    by blast
  have n: "2 = Suc 1" by simp
  from a have "generate 2 (start 140724873898955) = Some (Inr rs')"
    by (simp only: n)
  with b c p show ?thesis
    by simp
qed

lemma run_three:
  "\<exists>rs. generate 3 (start 140724873898955) = Some (Inr rs)
        \<and> printed rs = [[13, 23, 33, 36, 41, 49, 20], [13, 21, 26, 31, 32, 46, 43],
                         [13, 23, 33, 36, 41, 49, 20]]"
proof -
  from run_two obtain rs where g: "generate 2 (start 140724873898955) = Some (Inr rs)"
    and p: "printed rs = [[13, 23, 33, 36, 41, 49, 20], [13, 21, 26, 31, 32, 46, 43]]"
    and r: "rng rs = (12521680929827993823, 9696114580261742172)"
    by blast
  have d: "draw_one (rng rs)
      = ([13, 23, 33, 36, 41, 49, 20], (5885682269269375050, 17792390065688013992))"
    by (simp only: r draw_third)
  have slot: "2 \<le> unat (hash_ticket [13, 23, 33, 36, 41, 49, 20]) mod 1024"
    by (simp only: hash_first hash_first_slot)
  have "\<exists>rs'. generate (Suc 2) (start 140724873898955) = Some (Inr rs')
      \<and> printed rs' = printed rs @ [[13, 23, 33, 36, 41, 49, 20]]
      \<and> rng rs' = (5885682269269375050, 17792390065688013992)"
    by (rule generate_accepts [OF g _ d slot]) simp
  then obtain rs' where a: "generate (Suc 2) (start 140724873898955) = Some (Inr rs')"
    and b: "printed rs' = printed rs @ [[13, 23, 33, 36, 41, 49, 20]]"
    by blast
  have n: "3 = Suc 2" by simp
  from a have "generate 3 (start 140724873898955) = Some (Inr rs')"
    by (simp only: n)
  with b p show ?thesis
    by simp
qed

lemma parse_three: "parse_want [''lotto649'', ''3''] = 3"
  by (simp add: parse_want_def strtol_def isspace_def isdigit_def digits_value_def Let_def)

text \<open>
  C1 (what the code does). With the entropy word \<open>0x7ffd101eabcb\<close> and the argument
  \<^verbatim>\<open>3\<close>, the run prints three tickets and returns 0; the third ticket is the first one
  again, main numbers and bonus alike. Its fingerprint is stored in slot 0, the lookup of
  the third draw starts at slot \<open>h & 1023 = 102\<close>, which is empty, and reports "not seen".
\<close>

theorem duplicate_ticket_emitted:
  "main_portable 0x7ffd101eabcb [''lotto649'', ''3'']
     = Some (Inr (0, [[13, 23, 33, 36, 41, 49, 20], [13, 21, 26, 31, 32, 46, 43],
                      [13, 23, 33, 36, 41, 49, 20]]))"
  using run_three by (auto simp: main_portable_def parse_three)

theorem duplicate_ticket_emitted_witness:
  "\<exists>out. main_portable 0x7ffd101eabcb [''lotto649'', ''3''] = Some (Inr (0, out))
         \<and> \<not> distinct out"
  using duplicate_ticket_emitted by simp


subsection \<open>The statements above on the run with entropy word 0x7ffd101eabcb\<close>

theorem ticket_wellformed_witness:
  "fst (draw_one (seed_rng 0x7ffd101eabcb)) = [13, 23, 33, 36, 41, 49, 20]
   \<and> sorted_wrt (<) (take 6 (fst (draw_one (seed_rng 0x7ffd101eabcb))))
   \<and> distinct (fst (draw_one (seed_rng 0x7ffd101eabcb)))
   \<and> fst (draw_one (seed_rng 0x7ffd101eabcb)) ! 6 \<notin> set (take 6 (fst (draw_one (seed_rng 0x7ffd101eabcb))))
   \<and> length (fst (generate_ticket (\<lambda>g. (g, Suc g)) (0 :: nat))) = 6
   \<and> sorted_wrt (<) (fst (generate_ticket (\<lambda>g. (g, Suc g)) (0 :: nat)))"
  using ticket_wellformed [of "seed_rng 0x7ffd101eabcb" "\<lambda>g. (g, Suc g)" "0 :: nat"]
  by (simp add: seed_first draw_first)

theorem slots_fill_in_order_witness:
  "\<exists>rs. generate 3 (start 0x7ffd101eabcb) = Some (Inr rs)
        \<and> take 3 (table (grd rs))
            = [12500421341057587302, 15408775072775955337, 12500421341057587302]"
proof -
  from run_three obtain rs where g: "generate 3 (start 140724873898955) = Some (Inr rs)"
    and p: "printed rs = [[13, 23, 33, 36, 41, 49, 20], [13, 21, 26, 31, 32, 46, 43],
                         [13, 23, 33, 36, 41, 49, 20]]"
    by blast
  from slots_fill_in_order [OF g]
  have "take 3 (table (grd rs)) = map hash_ticket (printed rs)"
    by blast
  with g show ?thesis
    by (simp add: p hash_first hash_second)
qed

theorem lookup_terminates_witness:
  "(\<exists>r. already_seen \<lparr>seen = Some [7, 0], capacity = 2\<rparr> 7 = Some (Inr r))
   \<and> (\<exists>rs. generate 2 (start 0x7ffd101eabcb) = Some (Inr rs)
          \<and> (\<exists>r. already_seen (grd rs) 12500421341057587302 = Some (Inr r)))"
proof
  show "\<exists>r. already_seen \<lparr>seen = Some [7, 0], capacity = 2\<rparr> 7 = Some (Inr r)"
    using lookup_terminates [of "\<lparr>seen = Some [7, 0], capacity = 2\<rparr>" "[7, 0]" 1 7]
    by simp
next
  from run_two obtain rs where g: "generate 2 (start 140724873898955) = Some (Inr rs)"
    by blast
  have "\<exists>r. already_seen (grd rs) 12500421341057587302 = Some (Inr r)"
    using lookup_terminates [of _ _ _ _ 3 2 140724873898955 rs 12500421341057587302] g
    by simp
  with g show "\<exists>rs. generate 2 (start 0x7ffd101eabcb) = Some (Inr rs)
          \<and> (\<exists>r. already_seen (grd rs) 12500421341057587302 = Some (Inr r))"
    by auto
qed


theorem zero_marks_empty_slot_witness:
  "already_seen \<lparr>seen = Some [0, 0], capacity = 2\<rparr> 0 \<noteq> Some (Inr True)
   \<and> hash_ticket [13, 23, 33, 36, 41, 49, 20] \<noteq> 0
   \<and> (\<exists>rs. generate 2 (start 0x7ffd101eabcb) = Some (Inr rs)
          \<and> table (grd rs) ! 1 \<noteq> 0 \<and> table (grd rs) ! 2 = 0)"
proof -
  from run_two obtain rs where g: "generate 2 (start 140724873898955) = Some (Inr rs)"
    by blast
  note inv = generate_inv [OF g]
  have "capacity (grd rs) = 1024"
    using table_inv_capacity [OF inv] by simp
  then have len: "length (table (grd rs)) = 1024"
    using table_inv_table [OF inv] by simp
  note z = zero_marks_empty_slot
    [of "\<lparr>seen = Some [0, 0], capacity = 2\<rparr>" "[13, 23, 33, 36, 41, 49, 20]"
        "seed_rng 0" 2 140724873898955 rs]
  from z g len have "table (grd rs) ! 1 \<noteq> 0" "table (grd rs) ! 2 = 0"
    by simp_all
  with z g show ?thesis
    by auto
qed


subsection \<open>Argument policy\<close>

lemma length_tickets [simp]: "length (tickets rnd n g) = n"
  by (induction n arbitrary: g) (simp_all add: Let_def split: prod.splits)

lemma parse_want_absent: "length argv < 2 \<Longrightarrow> parse_want argv = 5"
  by (simp add: parse_want_def)

lemma parse_want_rejects:
  "snd (strtol (argv ! 1)) \<noteq> [] \<or> fst (strtol (argv ! 1)) < 1 \<Longrightarrow> parse_want argv = 5"
  by (auto simp: parse_want_def Let_def split: prod.splits)

lemma parse_want_accepts:
  "2 \<le> length argv \<Longrightarrow> strtol (argv ! 1) = (n, []) \<Longrightarrow> 1 \<le> n \<Longrightarrow> parse_want argv = n"
  by (simp add: parse_want_def)

lemma main_simple_absent:
  "length argv \<le> 1 \<Longrightarrow> main_simple rnd g argv = (0, [], tickets rnd 5 g)"
  by (simp add: main_simple_def)

lemma main_simple_rejects:
  "1 < length argv \<Longrightarrow> atoi (argv ! 1) \<le> 0 \<Longrightarrow>
   main_simple rnd g argv = (1, [''Invalid ticket count. Must be a positive integer.''], [])"
  by (simp add: main_simple_def)

lemma atoi_garbage: "atoi ''12abc'' = 12"
  by (simp add: atoi_def strtol_def isspace_def isdigit_def digits_value_def Let_def)

text \<open>
  C6 (what the code does). The simple variant reads its count with \<^verbatim>\<open>atoi\<close>, which stops
  at the first character that is not a digit: the argument \<^verbatim>\<open>12abc\<close> is not a number,
  yet the run neither falls back to 5 tickets nor fails: it prints 12 tickets and
  returns 0, whatever \<^verbatim>\<open>rand()\<close> yields.
\<close>

theorem simple_accepts_trailing_garbage:
  "main_simple rnd g [''lotto649'', ''12abc''] = (0, [], tickets rnd 12 g)
   \<and> length (tickets rnd 12 g) = 12"
  by (simp add: main_simple_def atoi_garbage)

theorem simple_accepts_trailing_garbage_witness:
  "length (snd (snd (main_simple (\<lambda>g. (g, Suc g)) (0 :: nat) [''lotto649'', ''12abc'']))) = 12
   \<and> parse_want [''lotto649'', ''12abc''] = 5"
  using simple_accepts_trailing_garbage [of "\<lambda>g. (g, Suc g)" "0 :: nat"]
  by (simp add: parse_want_def strtol_def isspace_def isdigit_def digits_value_def Let_def)


subsection \<open>Seeding\<close>

text \<open>
  C7. For every 64-bit seed value, the all-zero one included, \<^verbatim>\<open>seed_rng\<close> sets
  \<open>state[0]\<close> to the seed and \<open>state[1]\<close> to the seed XOR the fixed odd constant
  \<open>0x9e3779b97f4a7c15\<close>; the two state words are therefore unequal and never both zero.
\<close>

theorem seed_rng_words:
  "fst (seed_rng entropy) = entropy
   \<and> snd (seed_rng entropy) = entropy XOR 0x9e3779b97f4a7c15
   \<and> odd (0x9e3779b97f4a7c15 :: u64)
   \<and> fst (seed_rng entropy) \<noteq> snd (seed_rng entropy)
   \<and> (fst (seed_rng entropy), snd (seed_rng entropy)) \<noteq> (0, 0)"
proof -
  have neq: "entropy \<noteq> entropy XOR 0x9e3779b97f4a7c15"
  proof
    assume "entropy = entropy XOR 0x9e3779b97f4a7c15"
    then have "entropy XOR entropy = entropy XOR (entropy XOR 0x9e3779b97f4a7c15)"
      by simp
    then have "(0 :: u64) = 0x9e3779b97f4a7c15"
      by (simp only: bit.xor_self xor.assoc [symmetric] xor.left_neutral)
    then show False by simp
  qed
  then have "\<not> (entropy = 0 \<and> entropy XOR 0x9e3779b97f4a7c15 = 0)"
    by auto
  with neq show ?thesis
    by (simp add: seed_rng_def)
qed

theorem seed_rng_words_witness:
  "seed_rng 0 = (0, 0x9e3779b97f4a7c15) \<and> fst (seed_rng 0) \<noteq> snd (seed_rng 0)"
  using seed_rng_words [of 0] by (simp add: seed_rng_def)

end
